theory Spec2Isabelle
  imports Main "HOL-Library.Sublist"
begin

section \<open>Data model\<close>

text \<open>
  The store is the SQLite database \<open>rlm.db\<close> with the two tables the code reads and
  writes, \<open>docs(id, path, source, created_at, updated_at)\<close> and
  \<open>chunks(doc_id, layer, content, tags, summary)\<close>. A table is the list of its rows in
  rowid order: an INSERT appends a row, a DELETE removes rows and keeps the order of the
  others, an UPDATE rewrites rows in place.

  A path is the tuple of its parts (\<open>Path.parts\<close>); the \<open>path\<close> column holds \<open>str(path)\<close>,
  which determines the parts, so the model keeps the parts. Text is a list of characters;
  case folding is modelled on ASCII letters.
\<close>

type_synonym path = "string list"

record doc =
  d_id :: int
  d_path :: path
  d_source :: string
  d_created_at :: string
  d_updated_at :: string

record chunk =
  c_doc_id :: int
  c_layer :: string
  c_content :: string
  c_tags :: string
  c_summary :: string

record store =
  docs :: "doc list"
  chunks :: "chunk list"

datatype error =
    ValueError
  | OSError string
  | RuntimeError string
  | SystemExit int

section \<open>Strings\<close>

text \<open>\<open>str.lower\<close> on one ASCII character: the letters A to Z get bit 5 set.\<close>

definition lower :: "char \<Rightarrow> char" where
  "lower c =
     (if 65 \<le> (of_char c :: nat) \<and> (of_char c :: nat) \<le> 90
      then (case c of Char b0 b1 b2 b3 b4 b5 b6 b7 \<Rightarrow> Char b0 b1 b2 b3 b4 True b6 b7)
      else c)"

definition str_lower :: "string \<Rightarrow> string" where
  "str_lower s = map lower s"

text \<open>\<open>str.strip\<close>: whitespace is removed at both ends.\<close>

definition isspace :: "char \<Rightarrow> bool" where
  "isspace c = (let n = (of_char c :: nat) in (9 \<le> n \<and> n \<le> 13) \<or> (28 \<le> n \<and> n \<le> 32))"

definition strip :: "string \<Rightarrow> string" where
  "strip s = rev (dropWhile isspace (rev (dropWhile isspace s)))"

text \<open>\<open>" ".join(xs)\<close>.\<close>

fun join_space :: "string list \<Rightarrow> string" where
  "join_space [] = []"
| "join_space [x] = x"
| "join_space (x # y # ys) = x @ '' '' @ join_space (y # ys)"

section \<open>The indexer's store operations (rlm_indexer.py)\<close>

text \<open>
  \<open>SELECT id FROM docs WHERE path = ?\<close> followed by \<open>fetchone()\<close>: the first row with
  that path, if any.
\<close>

definition select_id :: "store \<Rightarrow> path \<Rightarrow> int option" where
  "select_id conn p = map_option d_id (find (\<lambda>d. d_path d = p) (docs conn))"

text \<open>
  \<open>cur.lastrowid\<close> after the INSERT into \<open>docs\<close>, whose \<open>id\<close> column is the table's
  integer primary key: one more than the largest id of the table, 1 for an empty table.
\<close>

definition lastrowid :: "doc list \<Rightarrow> int" where
  "lastrowid ds = (case ds of [] \<Rightarrow> 1 | d # r \<Rightarrow> fold max (map d_id r) (d_id d) + 1)"

text \<open>\<open>upsert_doc(conn, path)\<close>; \<open>now\<close> is the value of \<open>datetime.utcnow().isoformat()\<close>.\<close>

definition upsert_doc :: "store \<Rightarrow> path \<Rightarrow> string \<Rightarrow> int \<times> store" where
  "upsert_doc conn p now =
     (case select_id conn p of
        Some doc_id \<Rightarrow>
          (doc_id,
           conn\<lparr>docs := map (\<lambda>d. if d_id d = doc_id then d\<lparr>d_updated_at := now\<rparr> else d)
                          (docs conn)\<rparr>)
      | None \<Rightarrow>
          (let doc_id = lastrowid (docs conn)
           in (doc_id,
               conn\<lparr>docs := docs conn @
                  [\<lparr>d_id = doc_id, d_path = p, d_source = ''scratchpad'',
                    d_created_at = now, d_updated_at = now\<rparr>]\<rparr>)))"

text \<open>\<open>upsert_chunk(conn, doc_id, layer, content, summary)\<close>: DELETE, then INSERT.\<close>

definition upsert_chunk :: "store \<Rightarrow> int \<Rightarrow> string \<Rightarrow> string \<Rightarrow> string \<Rightarrow> store" where
  "upsert_chunk conn doc_id layer content summary =
     conn\<lparr>chunks :=
       filter (\<lambda>r. \<not> (c_doc_id r = doc_id \<and> c_layer r = layer)) (chunks conn) @
       [\<lparr>c_doc_id = doc_id, c_layer = layer, c_content = content, c_tags = [],
         c_summary = summary\<rparr>]\<rparr>"

section \<open>The query (rlm_query.py)\<close>

text \<open>
  SQLite's \<open>LIKE\<close> with no \<open>ESCAPE\<close> clause: in the pattern \<open>%\<close> matches any run of
  characters, \<open>_\<close> any one character, and every other character matches itself up to
  the case of ASCII letters.
\<close>

fun like :: "string \<Rightarrow> string \<Rightarrow> bool" where
  "like [] s = (s = [])"
| "like (p # ps) s =
     (if p = CHR ''%''
      then like ps s \<or> (case s of [] \<Rightarrow> False | c # t \<Rightarrow> like (p # ps) t)
      else (case s of [] \<Rightarrow> False
            | c # t \<Rightarrow> (p = CHR ''_'' \<or> lower p = lower c) \<and> like ps t))"

text \<open>
  The SELECT of \<open>main\<close>: \<open>chunks JOIN docs ON chunks.doc_id = docs.id\<close>, filtered by
  \<open>chunks.layer = 'public' AND chunks.summary LIKE '%q%'\<close>, \<open>LIMIT 10\<close>. The join is
  the nested loop over \<open>chunks\<close> in storage order with the document looked up by id.
  \<open>select_rows\<close> keeps the joined chunk and document of every result row;
  \<open>select_public\<close> is the projection to \<open>(docs.path, chunks.summary)\<close> that
  \<open>fetchall()\<close> returns.
\<close>

definition select_rows :: "store \<Rightarrow> string \<Rightarrow> (chunk \<times> doc) list" where
  "select_rows conn q =
     take 10
       (concat (map (\<lambda>c. concat (map (\<lambda>d.
          if c_doc_id c = d_id d \<and> c_layer c = ''public''
             \<and> like (''%'' @ q @ ''%'') (c_summary c)
          then [(c, d)] else []) (docs conn))) (chunks conn)))"

definition select_public :: "store \<Rightarrow> string \<Rightarrow> (path \<times> string) list" where
  "select_public conn q = map (\<lambda>(c, d). (d_path d, c_summary c)) (select_rows conn q)"

text \<open>
  \<open>main()\<close> of rlm_query.py on the argument vector \<open>argv\<close> (\<open>argv[0]\<close> is the script):
  fewer than two entries exit with status 1, otherwise the rows found for the lowered,
  space-joined arguments are printed in order.
\<close>

definition query_main :: "store \<Rightarrow> string list \<Rightarrow> error + (path \<times> string) list" where
  "query_main conn argv =
     (if length argv < 2 then Inl (SystemExit 1)
      else Inr (select_public conn (str_lower (join_space (tl argv)))))"

section \<open>The summarization adapter (ollama_adapter.py)\<close>

text \<open>
  What \<open>subprocess.run(["ollama", "run", model], input=prompt, text=True,
  capture_output=True)\<close> returns. The \<open>ollama\<close> executable is taken to start; a
  backend that cannot be reached shows as a non-zero return code with a diagnostic on
  standard error.
\<close>

record completed_process =
  returncode :: int
  stdout :: string
  stderr :: string

text \<open>
  Everything outside the store that the indexer touches: the file system under the
  configured directories (\<open>Path.exists\<close>, \<open>Path.is_dir\<close>, \<open>Path.rglob("*")\<close>,
  \<open>Path.read_text(encoding="utf-8", errors="ignore")\<close>), the \<open>ollama\<close> process and
  the clock. The backend may answer the same prompt differently from one run to the
  next, so \<open>ollama_run\<close> also takes the number of runs made before; \<open>utcnow\<close> takes
  the number of clock readings made before.
\<close>

record env =
  p_exists :: "path \<Rightarrow> bool"
  is_dir :: "path \<Rightarrow> bool"
  rglob :: "path \<Rightarrow> path list"
  read_text :: "path \<Rightarrow> error + string"
  ollama_run :: "nat \<Rightarrow> string \<Rightarrow> completed_process"
  utcnow :: "nat \<Rightarrow> string"

text \<open>
  The effects that no rollback undoes: the prompts submitted to the backend so far,
  oldest first, and the number of clock readings.
\<close>

record world =
  calls :: "string list"
  ticks :: nat

text \<open>Python's \<open>a or b\<close> on strings.\<close>

definition str_or :: "string \<Rightarrow> string \<Rightarrow> string" where
  "str_or a b = (if a = [] then b else a)"

definition ollama_generate ::
  "env \<Rightarrow> string list \<Rightarrow> string \<Rightarrow> (error + string) \<times> string list" where
  "ollama_generate e log prompt =
     (let proc = ollama_run e (length log) prompt
      in (if returncode proc \<noteq> 0
          then Inl (RuntimeError (str_or (strip (stderr proc)) ''ollama run failed''))
          else Inr (strip (stdout proc)),
          log @ [prompt]))"

definition PRIVATE_PROMPT :: string where
  "PRIVATE_PROMPT =
     ''Summarize the following text in 5-7 bullet points. Keep all key facts.''
     @ [CHR 0x0A, CHR 0x0A]"

definition PUBLIC_PROMPT :: string where
  "PUBLIC_PROMPT =
     ''Summarize the following text in 3-5 bullet points, ''
     @ ''redacting sensitive details and removing specific names or identifiers.''
     @ [CHR 0x0A, CHR 0x0A]"

definition summarize_private ::
  "env \<Rightarrow> string list \<Rightarrow> string \<Rightarrow> (error + string) \<times> string list" where
  "summarize_private e log text = ollama_generate e log (PRIVATE_PROMPT @ take 6000 text)"

definition summarize_public ::
  "env \<Rightarrow> string list \<Rightarrow> string \<Rightarrow> (error + string) \<times> string list" where
  "summarize_public e log text = ollama_generate e log (PUBLIC_PROMPT @ take 6000 text)"

section \<open>The indexing driver (rlm_indexer.py)\<close>

definition BASE :: path where
  "BASE = [''/'', ''Users'', ''colbyblack'', ''Desktop'', ''Codex Scratchpad'']"

definition TARGET_DIRS :: "path list" where
  "TARGET_DIRS =
     [BASE @ [''Agents'', ''Shared''],
      BASE @ [''News'', ''AI'', ''NateBJones''],
      BASE @ [''Gifts''],
      BASE @ [''Research'']]"

definition EXCLUDE :: "path list" where
  "EXCLUDE =
     [BASE @ [''02_Notes'', ''About_Me'', ''Colby Black'', ''Profile'', ''06_Private''],
      BASE @ [''02_Notes'', ''About_Me'', ''Colby Black'', ''Profile'', ''04_Relationships'']]"

text \<open>
  Modelled from the spec: \<open>schema.sql\<close>, the script \<open>ensure_db\<close> executes, is not among
  the sources. By the spec's store schema it declares the two tables \<open>docs\<close> and
  \<open>chunks\<close>; it is taken to create them when they are missing and to leave an existing
  store as it is.
\<close>

definition ensure_db :: "store \<Rightarrow> store" where
  "ensure_db conn = conn"

text \<open>\<open>name.rfind('.')\<close>: the index of the last dot, \<open>-1\<close> when there is none.\<close>

definition rfind_dot :: "string \<Rightarrow> int" where
  "rfind_dot name =
     (case filter (\<lambda>i. name ! i = CHR ''.'') (rev [0..<length name]) of
        [] \<Rightarrow> -1
      | i # _ \<Rightarrow> int i)"

text \<open>\<open>Path.suffix\<close>: the last dot of the final part and what follows it, when that dot
  is neither the first nor the last character of the part.\<close>

definition suffix_of :: "path \<Rightarrow> string" where
  "suffix_of p =
     (case rev p of
        [] \<Rightarrow> []
      | name # _ \<Rightarrow>
          (let i = rfind_dot name
           in if 0 < i \<and> i < int (length name) - 1 then drop (nat i) name else []))"

text \<open>\<open>path.relative_to(other)\<close>: the parts after \<open>other\<close>, a \<open>ValueError\<close> when the
  parts of \<open>other\<close> do not start the parts of \<open>path\<close>.\<close>

definition relative_to :: "path \<Rightarrow> path \<Rightarrow> error + path" where
  "relative_to p other =
     (if prefix other p then Inr (drop (length other) p) else Inl ValueError)"

text \<open>The loop over \<open>EXCLUDE\<close> in \<open>should_index\<close>: true when some entry disqualifies
  the path.\<close>

fun under_exclusion :: "path \<Rightarrow> path list \<Rightarrow> bool" where
  "under_exclusion p [] = False"
| "under_exclusion p (ex # exs) =
     (case relative_to p ex of Inr _ \<Rightarrow> True | Inl _ \<Rightarrow> under_exclusion p exs)"

definition should_index :: "env \<Rightarrow> path \<Rightarrow> bool" where
  "should_index e p =
     (if is_dir e p then False
      else if str_lower (suffix_of p) \<notin> {''.md'', ''.txt''} then False
      else if under_exclusion p EXCLUDE then False
      else True)"

text \<open>
  The body of the inner loop of \<open>main\<close> for a path that passed \<open>should_index\<close>, up to
  and including \<open>conn.commit()\<close>. An exception leaves the loop at once; then the result
  is the error, and the writes made since the last commit are lost with the connection.
\<close>

definition index_file :: "env \<Rightarrow> store \<Rightarrow> world \<Rightarrow> path \<Rightarrow> (error + store) \<times> world" where
  "index_file e conn w p =
     (case read_text e p of
        Inl err \<Rightarrow> (Inl err, w)
      | Inr text \<Rightarrow>
          (let (doc_id, conn1) = upsert_doc conn p (utcnow e (ticks w));
               w1 = w\<lparr>ticks := Suc (ticks w)\<rparr>;
               (r1, log1) = summarize_private e (calls w1) text
           in case r1 of
                Inl err \<Rightarrow> (Inl err, w1\<lparr>calls := log1\<rparr>)
              | Inr private_summary \<Rightarrow>
                  (let (r2, log2) = summarize_public e log1 text
                   in case r2 of
                        Inl err \<Rightarrow> (Inl err, w1\<lparr>calls := log2\<rparr>)
                      | Inr public_summary \<Rightarrow>
                          (let conn2 = upsert_chunk conn1 doc_id ''private''
                                         (take 10000 text) private_summary;
                               conn3 = upsert_chunk conn2 doc_id ''public''
                                         (take 10000 text) public_summary
                           in (Inr conn3, w1\<lparr>calls := log2\<rparr>)))))"

text \<open>
  The inner loop \<open>for path in base.rglob("*")\<close>. The store passed along is the
  committed one; the result is the uncaught exception, if any, the store as last
  committed and the world.
\<close>

fun index_paths :: "env \<Rightarrow> store \<Rightarrow> world \<Rightarrow> path list \<Rightarrow> error option \<times> store \<times> world" where
  "index_paths e conn w [] = (None, conn, w)"
| "index_paths e conn w (p # ps) =
     (if \<not> should_index e p then index_paths e conn w ps
      else (case index_file e conn w p of
              (Inl err, w') \<Rightarrow> (Some err, conn, w')
            | (Inr conn', w') \<Rightarrow> index_paths e conn' w' ps))"

text \<open>The outer loop \<open>for base in TARGET_DIRS\<close>.\<close>

fun index_dirs :: "env \<Rightarrow> store \<Rightarrow> world \<Rightarrow> path list \<Rightarrow> error option \<times> store \<times> world" where
  "index_dirs e conn w [] = (None, conn, w)"
| "index_dirs e conn w (base # bases) =
     (if \<not> p_exists e base then index_dirs e conn w bases
      else (case index_paths e conn w (rglob e base) of
              (Some err, conn', w') \<Rightarrow> (Some err, conn', w')
            | (None, conn', w') \<Rightarrow> index_dirs e conn' w' bases))"

text \<open>\<open>main()\<close> of rlm_indexer.py, the batch-index operation.\<close>

definition main :: "env \<Rightarrow> store \<Rightarrow> world \<Rightarrow> error option \<times> store \<times> world" where
  "main e conn w = index_dirs e (ensure_db conn) w TARGET_DIRS"

text \<open>The paths the two loops of \<open>main\<close> visit, in order.\<close>

definition candidates :: "env \<Rightarrow> path list" where
  "candidates e = concat (map (rglob e) (filter (p_exists e) TARGET_DIRS))"

text \<open>
  The states of store and world that runs of the batch-index operation reach from the
  empty store, whatever the file system, the backend and the clock do in each run.
\<close>

definition empty_store :: store where
  "empty_store = \<lparr>docs = [], chunks = []\<rparr>"

definition start_world :: world where
  "start_world = \<lparr>calls = [], ticks = 0\<rparr>"

inductive reachable :: "store \<Rightarrow> world \<Rightarrow> bool" where
  reachable_start: "reachable empty_store start_world"
| reachable_main: "reachable conn w \<Longrightarrow> main e conn w = (r, conn', w') \<Longrightarrow> reachable conn' w'"

section \<open>Derived notions\<close>

text \<open>
  The store holds, for the document registered under path \<open>p\<close>, exactly one chunk of
  the private layer and exactly one of the public layer, and the content of both is the
  first 10000 characters of \<open>t\<close>.
\<close>

definition both_layers :: "store \<Rightarrow> path \<Rightarrow> string \<Rightarrow> bool" where
  "both_layers conn p t =
     (case select_id conn p of
        None \<Rightarrow> False
      | Some i \<Rightarrow>
          map c_content (filter (\<lambda>r. c_doc_id r = i \<and> c_layer r = ''private'') (chunks conn))
            = [take 10000 t]
          \<and> map c_content (filter (\<lambda>r. c_doc_id r = i \<and> c_layer r = ''public'') (chunks conn))
            = [take 10000 t])"

text \<open>
  The effect of \<open>upsert_chunk\<close> on the table alone: the rows of the new row's pair
  go, the new row is appended. \<open>puts\<close> does this for a list of rows in order.
\<close>

definition put :: "chunk list \<Rightarrow> chunk \<Rightarrow> chunk list" where
  "put xs r = filter (\<lambda>x. \<not> (c_doc_id x = c_doc_id r \<and> c_layer x = c_layer r)) xs @ [r]"

definition puts :: "chunk list \<Rightarrow> chunk list \<Rightarrow> chunk list" where
  "puts xs rs = foldl put xs rs"

text \<open>
  The two rows that a successful pass through the loop body writes for path \<open>p\<close>, and
  the rows a whole pass through the inner loop writes, in order.
\<close>

definition file_rows :: "env \<Rightarrow> store \<Rightarrow> world \<Rightarrow> path \<Rightarrow> chunk list" where
  "file_rows e conn w p =
     (case read_text e p of
        Inl err \<Rightarrow> []
      | Inr text \<Rightarrow>
          (let i = fst (upsert_doc conn p (utcnow e (ticks w)));
               n = length (calls w)
           in [\<lparr>c_doc_id = i, c_layer = ''private'', c_content = take 10000 text, c_tags = [],
                 c_summary = strip (stdout (ollama_run e n (PRIVATE_PROMPT @ take 6000 text)))\<rparr>,
               \<lparr>c_doc_id = i, c_layer = ''public'', c_content = take 10000 text, c_tags = [],
                 c_summary = strip (stdout (ollama_run e (Suc n)
                                              (PUBLIC_PROMPT @ take 6000 text)))\<rparr>]))"

fun written :: "env \<Rightarrow> store \<Rightarrow> world \<Rightarrow> path list \<Rightarrow> chunk list" where
  "written e conn w [] = []"
| "written e conn w (p # ps) =
     (if \<not> should_index e p then written e conn w ps
      else (case index_file e conn w p of
              (Inl err, w') \<Rightarrow> []
            | (Inr conn', w') \<Rightarrow> file_rows e conn w p @ written e conn' w' ps))"

section \<open>Example data\<close>

text \<open>The spec's example: one note, indexed, with its private and its public chunk.\<close>

definition demo_doc :: doc where
  "demo_doc = \<lparr>d_id = 1, d_path = BASE @ [''Research'', ''notes.md''], d_source = ''scratchpad'',
     d_created_at = ''2026-01-31T10:00:00'', d_updated_at = ''2026-01-31T10:00:00''\<rparr>"

definition demo_private :: chunk where
  "demo_private = \<lparr>c_doc_id = 1, c_layer = ''private'',
     c_content = ''Meeting with Alice about salary $120k'', c_tags = [],
     c_summary = ''- Alice asked for a salary of $120k''\<rparr>"

definition demo_public :: chunk where
  "demo_public = \<lparr>c_doc_id = 1, c_layer = ''public'',
     c_content = ''Meeting with Alice about salary $120k'', c_tags = [],
     c_summary = ''- A meeting about Salary took place''\<rparr>"

definition demo_store :: store where
  "demo_store = \<lparr>docs = [demo_doc], chunks = [demo_private, demo_public]\<rparr>"

text \<open>
  A file system with one configured directory, \<open>Research\<close>, holding an unreadable
  file followed by the note; a backend that answers every prompt; a clock.
\<close>

definition locked_md :: path where
  "locked_md = BASE @ [''Research'', ''locked.md'']"

definition notes_md :: path where
  "notes_md = BASE @ [''Research'', ''notes.md'']"

definition demo_env :: env where
  "demo_env =
     \<lparr>p_exists = (\<lambda>p. p = BASE @ [''Research'']),
      is_dir = (\<lambda>p. False),
      rglob = (\<lambda>b. if b = BASE @ [''Research''] then [locked_md, notes_md] else []),
      read_text = (\<lambda>p. if p = locked_md then Inl (OSError ''Permission denied'')
                         else Inr ''Meeting with Alice about salary $120k''),
      ollama_run = (\<lambda>n prompt. \<lparr>returncode = 0, stdout = ''- a meeting took place '',
                                 stderr = []\<rparr>),
      utcnow = (\<lambda>n. ''2026-01-31T10:00:00'')\<rparr>"

text \<open>
  The same file system without the unreadable file, and a backend that is down: every
  run of \<open>ollama\<close> exits with status 1 and a diagnostic on standard error.
\<close>

definition down_env :: env where
  "down_env =
     demo_env\<lparr>rglob := (\<lambda>b. if b = BASE @ [''Research''] then [notes_md] else []),
              ollama_run := (\<lambda>n prompt. \<lparr>returncode = 1, stdout = [],
                 stderr = ''Error: could not connect to ollama app, is it running?''
                          @ [CHR 0x0A]\<rparr>)\<rparr>"

text \<open>
  A walk that yields a Markdown file under the first exclusion prefix before the note,
  both readable, with the backend up.
\<close>

definition diary_md :: path where
  "diary_md = BASE @ [''02_Notes'', ''About_Me'', ''Colby Black'', ''Profile'', ''06_Private'',
                      ''diary.md'']"

definition leaky_env :: env where
  "leaky_env =
     demo_env\<lparr>rglob := (\<lambda>b. if b = BASE @ [''Research''] then [diary_md, notes_md] else []),
              read_text := (\<lambda>p. Inr ''Meeting with Alice about salary $120k'')\<rparr>"

definition indexed_store :: store where
  "indexed_store =
     \<lparr>docs = [\<lparr>d_id = 1, d_path = notes_md, d_source = ''scratchpad'',
                d_created_at = ''2026-01-31T10:00:00'', d_updated_at = ''2026-01-31T10:00:00''\<rparr>],
      chunks = [\<lparr>c_doc_id = 1, c_layer = ''private'',
                  c_content = ''Meeting with Alice about salary $120k'', c_tags = [],
                  c_summary = ''- a meeting took place''\<rparr>,
                \<lparr>c_doc_id = 1, c_layer = ''public'',
                  c_content = ''Meeting with Alice about salary $120k'', c_tags = [],
                  c_summary = ''- a meeting took place''\<rparr>]\<rparr>"

definition indexed_world :: world where
  "indexed_world =
     \<lparr>calls = [PRIVATE_PROMPT @ ''Meeting with Alice about salary $120k'',
               PUBLIC_PROMPT @ ''Meeting with Alice about salary $120k''],
      ticks = 1\<rparr>"

text \<open>A note of 20000 characters, and the state after the first run over it.\<close>

definition long_text :: string where
  "long_text = replicate 20000 CHR ''x''"

definition long_env :: env where
  "long_env =
     demo_env\<lparr>rglob := (\<lambda>b. if b = BASE @ [''Research''] then [notes_md] else []),
              read_text := (\<lambda>p. Inr long_text)\<rparr>"

definition long_store :: store where
  "long_store =
     \<lparr>docs = [\<lparr>d_id = 1, d_path = notes_md, d_source = ''scratchpad'',
                d_created_at = ''2026-01-31T10:00:00'', d_updated_at = ''2026-01-31T10:00:00''\<rparr>],
      chunks = [\<lparr>c_doc_id = 1, c_layer = ''private'',
                  c_content = replicate 10000 CHR ''x'', c_tags = [],
                  c_summary = ''- a meeting took place''\<rparr>,
                \<lparr>c_doc_id = 1, c_layer = ''public'',
                  c_content = replicate 10000 CHR ''x'', c_tags = [],
                  c_summary = ''- a meeting took place''\<rparr>]\<rparr>"

definition long_world :: world where
  "long_world =
     \<lparr>calls = [PRIVATE_PROMPT @ replicate 6000 CHR ''x'',
               PUBLIC_PROMPT @ replicate 6000 CHR ''x''],
      ticks = 1\<rparr>"

text \<open>The indexed note with the public summary \<open>abc\<close>.\<close>

definition abc_store :: store where
  "abc_store =
     \<lparr>docs = [\<lparr>d_id = 1, d_path = notes_md, d_source = ''scratchpad'',
                d_created_at = ''2026-01-31T10:00:00'', d_updated_at = ''2026-01-31T10:00:00''\<rparr>],
      chunks = [\<lparr>c_doc_id = 1, c_layer = ''private'', c_content = ''abc'', c_tags = [],
                  c_summary = ''abc''\<rparr>,
                \<lparr>c_doc_id = 1, c_layer = ''public'', c_content = ''abc'', c_tags = [],
                  c_summary = ''abc''\<rparr>]\<rparr>"

section \<open>Store operations: properties\<close>

text \<open>
  C4. After \<open>upsert_chunk(conn, d, layer, c, s)\<close> the rows of \<open>chunks\<close> for the pair
  \<open>(d, layer)\<close> are exactly one row, holding content \<open>c\<close> and summary \<open>s\<close>, whatever
  rows for the pair the table held before; the rows of every other pair and the
  \<open>docs\<close> table are as before.
\<close>

theorem upsert_chunk_exactly_one:
  "filter (\<lambda>r. c_doc_id r = d \<and> c_layer r = l) (chunks (upsert_chunk conn d l c s))
     = [\<lparr>c_doc_id = d, c_layer = l, c_content = c, c_tags = [], c_summary = s\<rparr>]
   \<and> filter (\<lambda>r. \<not> (c_doc_id r = d \<and> c_layer r = l)) (chunks (upsert_chunk conn d l c s))
     = filter (\<lambda>r. \<not> (c_doc_id r = d \<and> c_layer r = l)) (chunks conn)
   \<and> docs (upsert_chunk conn d l c s) = docs conn"
proof -
  have gone: "filter (\<lambda>r. c_doc_id r = d \<and> c_layer r = l)
      (filter (\<lambda>r. \<not> (c_doc_id r = d \<and> c_layer r = l)) (chunks conn)) = []"
    by (induction "chunks conn" arbitrary: conn) (simp_all add: filter_empty_conv)
  show ?thesis
    unfolding upsert_chunk_def using gone by simp
qed

section \<open>The query: properties\<close>

lemma select_rows_sound:
  "(c, d) \<in> set (select_rows conn q) \<Longrightarrow>
     c_layer c = ''public'' \<and> c \<in> set (chunks conn) \<and> d \<in> set (docs conn) \<and> c_doc_id c = d_id d"
  unfolding select_rows_def
  by (auto dest!: in_set_takeD split: if_splits)

text \<open>
  C1. For every keyword and every store, each row the query returns is the projection of
  a chunk of the store joined with its document, and that chunk's layer is \<open>public\<close>:
  no result row comes from a chunk of the private layer.
\<close>

theorem search_only_public:
  "select_public conn k = map (\<lambda>(c, d). (d_path d, c_summary c)) (select_rows conn k)
   \<and> (\<forall>(c, d) \<in> set (select_rows conn k).
         c_layer c = ''public'' \<and> c_layer c \<noteq> ''private''
         \<and> c \<in> set (chunks conn) \<and> d \<in> set (docs conn) \<and> c_doc_id c = d_id d)
   \<and> (query_main conn argv = Inr rows \<longrightarrow>
        (\<forall>row\<in>set rows. \<exists>c\<in>set (chunks conn). \<exists>d\<in>set (docs conn).
           c_layer c = ''public'' \<and> c_doc_id c = d_id d \<and> row = (d_path d, c_summary c)))"
proof -
  have rows: "\<exists>c\<in>set (chunks conn). \<exists>d\<in>set (docs conn).
           c_layer c = ''public'' \<and> c_doc_id c = d_id d \<and> row = (d_path d, c_summary c)"
    if m: "row \<in> set (select_public conn q)" for row q
  proof -
    obtain x where x: "x \<in> set (select_rows conn q)"
      and r: "row = (d_path (snd x), c_summary (fst x))"
      using m by (auto simp: select_public_def)
    have "(fst x, snd x) \<in> set (select_rows conn q)" using x by simp
    then show ?thesis using select_rows_sound [of "fst x" "snd x" conn q] r by blast
  qed
  have "\<forall>row\<in>set rows. \<exists>c\<in>set (chunks conn). \<exists>d\<in>set (docs conn).
           c_layer c = ''public'' \<and> c_doc_id c = d_id d \<and> row = (d_path d, c_summary c)"
    if "query_main conn argv = Inr rows"
    using that rows by (auto simp: query_main_def split: if_splits)
  then show ?thesis
    using select_rows_sound [of _ _ conn k] by (auto simp: select_public_def)
qed

lemma demo_rows: "select_rows demo_store ''salary'' = [(demo_public, demo_doc)]"
  by (simp add: select_rows_def demo_store_def demo_doc_def demo_private_def demo_public_def lower_def)

theorem search_only_public_witness:
  "select_public demo_store ''salary''
     = [(BASE @ [''Research'', ''notes.md''], ''- A meeting about Salary took place'')]
   \<and> select_rows demo_store ''salary'' = [(demo_public, demo_doc)]
   \<and> c_layer demo_public = ''public'' \<and> demo_private \<in> set (chunks demo_store)
   \<and> query_main demo_store [''rlm_query.py'', ''SALARY'']
       = Inr [(BASE @ [''Research'', ''notes.md''], ''- A meeting about Salary took place'')]"
  using search_only_public [of demo_store "''salary''" "[''rlm_query.py'', ''SALARY'']"
      "[(BASE @ [''Research'', ''notes.md''], ''- A meeting about Salary took place'')]"] demo_rows
  by (simp add: demo_store_def demo_doc_def demo_public_def query_main_def select_public_def
      str_lower_def lower_def)

section \<open>Document identity\<close>

lemma fold_max_ge: "(a::int) \<le> fold max xs a \<and> (\<forall>x\<in>set xs. x \<le> fold max xs a)"
proof (induction xs arbitrary: a)
  case Nil
  show ?case by simp
next
  case (Cons y ys)
  have "max y a \<le> fold max ys (max y a)" using Cons by blast
  then show ?case using Cons [of "max y a"] by auto
qed

lemma lastrowid_fresh: "d \<in> set ds \<Longrightarrow> d_id d < lastrowid ds"
  using fold_max_ge [of "d_id (hd ds)" "map d_id (tl ds)"]
  by (cases ds) (auto simp: lastrowid_def)

lemma find_touch:
  "find (\<lambda>d. d_path d = p) (map (\<lambda>d. if d_id d = i then d\<lparr>d_updated_at := now\<rparr> else d) ds)
     = map_option (\<lambda>d. if d_id d = i then d\<lparr>d_updated_at := now\<rparr> else d)
         (find (\<lambda>d. d_path d = p) ds)"
  by (induction ds) auto

lemma find_append:
  "find P (xs @ ys) = (case find P xs of None \<Rightarrow> find P ys | Some x \<Rightarrow> Some x)"
  by (induction xs) auto

lemma select_id_touch:
  "select_id (conn\<lparr>docs := map (\<lambda>r. if d_id r = j then r\<lparr>d_updated_at := now\<rparr> else r)
                              (docs conn)\<rparr>) q = select_id conn q"
proof -
  have "map_option d_id (find (\<lambda>d. d_path d = q)
          (map (\<lambda>r. if d_id r = j then r\<lparr>d_updated_at := now\<rparr> else r) ds))
      = map_option d_id (find (\<lambda>d. d_path d = q) ds)" for ds :: "doc list"
    by (induction ds) auto
  then show ?thesis by (simp add: select_id_def)
qed

lemma select_id_upsert_doc:
  "select_id (snd (upsert_doc conn p now)) q
     = (if q = p then Some (fst (upsert_doc conn p now)) else select_id conn q)"
proof (cases "select_id conn p")
  case None
  then show ?thesis
    by (auto simp: upsert_doc_def select_id_def find_append Let_def split: option.splits)
next
  case (Some j)
  then show ?thesis
    by (simp add: upsert_doc_def select_id_touch)
qed

text \<open>
  C7. \<open>upsert_doc\<close> keeps identity: it changes no chunk, and a second call for the same
  path returns the same id. When the path is registered it returns the id of the
  registered row and no row changes in id, path, origin tag or creation timestamp; only
  the updated-at timestamp of the rows with that id becomes \<open>now\<close>. When the path is
  unknown it appends one row with a new id, the path, and both timestamps \<open>now\<close>.
\<close>

theorem upsert_doc_identity:
  "upsert_doc conn p now = (i, conn') \<Longrightarrow>
     chunks conn' = chunks conn
     \<and> fst (upsert_doc conn' p now') = i
     \<and> (case find (\<lambda>d. d_path d = p) (docs conn) of
          Some d \<Rightarrow>
            i = d_id d
            \<and> map d_id (docs conn') = map d_id (docs conn)
            \<and> map d_path (docs conn') = map d_path (docs conn)
            \<and> map d_source (docs conn') = map d_source (docs conn)
            \<and> map d_created_at (docs conn') = map d_created_at (docs conn)
            \<and> map d_updated_at (docs conn')
                = map (\<lambda>r. if d_id r = i then now else d_updated_at r) (docs conn)
        | None \<Rightarrow>
            i \<notin> set (map d_id (docs conn))
            \<and> docs conn' = docs conn @
                 [\<lparr>d_id = i, d_path = p, d_source = ''scratchpad'',
                   d_created_at = now, d_updated_at = now\<rparr>])"
proof -
  assume u: "upsert_doc conn p now = (i, conn')"
  have again: "fst (upsert_doc conn' p now') = i"
  proof -
    have "select_id conn' p = Some i"
      using select_id_upsert_doc [of conn p now p] u by simp
    then show ?thesis by (simp add: upsert_doc_def)
  qed
  have same_chunks: "chunks conn' = chunks conn"
    using u by (auto simp: upsert_doc_def Let_def split: option.splits)
  have rows: "case find (\<lambda>d. d_path d = p) (docs conn) of
          Some d \<Rightarrow>
            i = d_id d
            \<and> map d_id (docs conn') = map d_id (docs conn)
            \<and> map d_path (docs conn') = map d_path (docs conn)
            \<and> map d_source (docs conn') = map d_source (docs conn)
            \<and> map d_created_at (docs conn') = map d_created_at (docs conn)
            \<and> map d_updated_at (docs conn')
                = map (\<lambda>r. if d_id r = i then now else d_updated_at r) (docs conn)
        | None \<Rightarrow>
            i \<notin> set (map d_id (docs conn))
            \<and> docs conn' = docs conn @
                 [\<lparr>d_id = i, d_path = p, d_source = ''scratchpad'',
                   d_created_at = now, d_updated_at = now\<rparr>]"
  proof (cases "find (\<lambda>d. d_path d = p) (docs conn)")
    case None
    have "i = lastrowid (docs conn)"
      using u None by (simp add: upsert_doc_def select_id_def Let_def)
    then have "i \<notin> set (map d_id (docs conn))"
      using lastrowid_fresh [of _ "docs conn"] by force
    then show ?thesis using u None by (auto simp: upsert_doc_def select_id_def Let_def)
  next
    case (Some d)
    then show ?thesis using u by (auto simp: upsert_doc_def select_id_def)
  qed
  show ?thesis using again same_chunks rows by simp
qed

theorem upsert_doc_identity_witness:
  "upsert_doc demo_store (BASE @ [''Research'', ''notes.md'']) ''2026-02-01T08:00:00''
     = (1, demo_store\<lparr>docs := [demo_doc\<lparr>d_updated_at := ''2026-02-01T08:00:00''\<rparr>]\<rparr>)
   \<and> upsert_doc demo_store (BASE @ [''Gifts'', ''ideas.txt'']) ''2026-02-01T08:00:00''
     = (2, demo_store\<lparr>docs := [demo_doc,
          \<lparr>d_id = 2, d_path = BASE @ [''Gifts'', ''ideas.txt''], d_source = ''scratchpad'',
            d_created_at = ''2026-02-01T08:00:00'', d_updated_at = ''2026-02-01T08:00:00''\<rparr>]\<rparr>)"
  using upsert_doc_identity [of demo_store "BASE @ [''Research'', ''notes.md'']" "''2026-02-01T08:00:00''" 1
      "demo_store\<lparr>docs := [demo_doc\<lparr>d_updated_at := ''2026-02-01T08:00:00''\<rparr>]\<rparr>"]
  by (simp add: upsert_doc_def select_id_def lastrowid_def demo_store_def demo_doc_def BASE_def)

section \<open>The batch run: structure and failures\<close>

lemma index_paths_append:
  "index_paths e conn w (xs @ ys) =
     (case index_paths e conn w xs of
        (Some err, c, w') \<Rightarrow> (Some err, c, w')
      | (None, c, w') \<Rightarrow> index_paths e c w' ys)"
  by (induction xs arbitrary: conn w) (auto split: prod.splits sum.splits)

lemma index_dirs_flat:
  "index_dirs e conn w dirs =
     index_paths e conn w (concat (map (rglob e) (filter (p_exists e) dirs)))"
  by (induction dirs arbitrary: conn w)
     (auto simp: index_paths_append split: prod.splits option.splits)

lemma main_flat: "main e conn w = index_paths e conn w (candidates e)"
  by (simp add: main_def candidates_def index_dirs_flat ensure_db_def)

lemma index_paths_stop:
  "should_index e p \<Longrightarrow> index_file e c w' p = (Inl err, w'') \<Longrightarrow>
     index_paths e conn w ps = (None, c, w') \<Longrightarrow>
     index_paths e conn w (ps @ p # qs) = (Some err, c, w'')"
  by (simp add: index_paths_append)

text \<open>
  C5 (as the code has it). A candidate whose \<open>read_text\<close> raises ends the run: unless
  an earlier candidate already ended it, the batch-index operation stops at that file
  with the read error, the store is the one committed by the candidates before it, and
  neither that file nor any later candidate is processed.
\<close>

theorem read_failure_aborts:
  "candidates e = ps @ p # qs \<Longrightarrow> should_index e p \<Longrightarrow> read_text e p = Inl err \<Longrightarrow>
     main e conn w =
       (case index_paths e (ensure_db conn) w ps of
          (Some err', c, w') \<Rightarrow> (Some err', c, w')
        | (None, c, w') \<Rightarrow> (Some err, c, w'))"
  by (auto simp: main_flat index_paths_append index_file_def ensure_db_def
           split: prod.splits option.splits)

lemma demo_candidates: "candidates demo_env = [locked_md, notes_md]"
  by (simp add: candidates_def demo_env_def TARGET_DIRS_def BASE_def)

lemma demo_should_index: "should_index demo_env locked_md \<and> should_index demo_env notes_md"
  by (simp add: should_index_def demo_env_def locked_md_def notes_md_def BASE_def EXCLUDE_def
      suffix_of_def rfind_dot_def str_lower_def lower_def relative_to_def upt_rec)

theorem read_failure_aborts_witness:
  "main demo_env empty_store start_world
     = (Some (OSError ''Permission denied''), empty_store, start_world)"
  using read_failure_aborts [of demo_env "[]" locked_md "[notes_md]" "OSError ''Permission denied''"
      empty_store start_world] demo_candidates demo_should_index
  by (simp add: demo_env_def ensure_db_def)

lemma demo_locked:
  "index_file demo_env c w locked_md = (Inl (OSError ''Permission denied''), w)"
  by (simp add: index_file_def demo_env_def)

lemma demo_notes_readable:
  "read_text demo_env notes_md = Inr ''Meeting with Alice about salary $120k''"
  by (simp add: demo_env_def locked_md_def notes_md_def)

text \<open>
  A read failure is not skipped. In the example \<open>notes.md\<close> is an indexable, readable
  candidate after the unreadable \<open>locked.md\<close>, and the run ends with the read error
  and an empty store: \<open>notes.md\<close> is never indexed.
\<close>

theorem read_failure_counterexample:
  "should_index demo_env notes_md
   \<and> read_text demo_env notes_md = Inr ''Meeting with Alice about salary $120k''
   \<and> main demo_env empty_store start_world
       = (Some (OSError ''Permission denied''), empty_store, start_world)
   \<and> docs empty_store = [] \<and> chunks empty_store = []"
  using demo_should_index demo_notes_readable
  by (simp add: main_flat demo_candidates demo_locked empty_store_def)

lemma ollama_generate_failure:
  "returncode (ollama_run e (length log) prompt) \<noteq> 0 \<Longrightarrow>
     ollama_generate e log prompt =
       (Inl (RuntimeError (str_or (strip (stderr (ollama_run e (length log) prompt)))
                             ''ollama run failed'')), log @ [prompt])"
  by (simp add: ollama_generate_def Let_def)

lemma index_file_private_failure:
  assumes "read_text e p = Inr text"
    and "returncode (ollama_run e (length (calls w)) (PRIVATE_PROMPT @ take 6000 text)) \<noteq> 0"
  shows "index_file e conn w p =
     (Inl (RuntimeError (str_or (strip (stderr
          (ollama_run e (length (calls w)) (PRIVATE_PROMPT @ take 6000 text))))
          ''ollama run failed'')),
      \<lparr>calls = calls w @ [PRIVATE_PROMPT @ take 6000 text], ticks = Suc (ticks w)\<rparr>)"
  using assms
  by (simp add: index_file_def summarize_private_def ollama_generate_def Let_def
      split: prod.splits)

lemma index_file_public_failure:
  assumes "read_text e p = Inr text"
    and "returncode (ollama_run e (length (calls w)) (PRIVATE_PROMPT @ take 6000 text)) = 0"
    and "returncode (ollama_run e (Suc (length (calls w))) (PUBLIC_PROMPT @ take 6000 text)) \<noteq> 0"
  shows "index_file e conn w p =
     (Inl (RuntimeError (str_or (strip (stderr
          (ollama_run e (Suc (length (calls w))) (PUBLIC_PROMPT @ take 6000 text))))
          ''ollama run failed'')),
      \<lparr>calls = calls w @ [PRIVATE_PROMPT @ take 6000 text, PUBLIC_PROMPT @ take 6000 text],
       ticks = Suc (ticks w)\<rparr>)"
  using assms
  by (simp add: index_file_def summarize_private_def summarize_public_def ollama_generate_def
      Let_def split: prod.splits)

text \<open>
  C6. A run of the backend that exits with a non-zero status makes \<open>ollama_generate\<close>
  raise a \<open>RuntimeError\<close> that carries the stripped standard error of the backend (a
  fixed message when that is empty), after exactly one submission of the prompt. When
  this happens for the private or for the public summary of a candidate, the
  batch-index operation ends with that error: the store is the one committed by the
  candidates before it, the failing prompt was submitted once, and no later candidate is
  processed.
\<close>

theorem backend_failure_aborts:
  assumes "candidates e = ps @ p # qs"
    and "should_index e p"
    and "read_text e p = Inr text"
    and "index_paths e (ensure_db conn) w ps = (None, c, w')"
  shows
    "(returncode (ollama_run e (length log) prompt) \<noteq> 0 \<longrightarrow>
        ollama_generate e log prompt =
          (Inl (RuntimeError (str_or (strip (stderr (ollama_run e (length log) prompt)))
                                ''ollama run failed'')), log @ [prompt]))
     \<and> (let pr = ollama_run e (length (calls w')) (PRIVATE_PROMPT @ take 6000 text);
             pu = ollama_run e (Suc (length (calls w'))) (PUBLIC_PROMPT @ take 6000 text)
         in (returncode pr \<noteq> 0 \<longrightarrow>
               main e conn w =
                 (Some (RuntimeError (str_or (strip (stderr pr)) ''ollama run failed'')), c,
                  \<lparr>calls = calls w' @ [PRIVATE_PROMPT @ take 6000 text],
                   ticks = Suc (ticks w')\<rparr>))
          \<and> (returncode pr = 0 \<and> returncode pu \<noteq> 0 \<longrightarrow>
               main e conn w =
                 (Some (RuntimeError (str_or (strip (stderr pu)) ''ollama run failed'')), c,
                  \<lparr>calls = calls w' @ [PRIVATE_PROMPT @ take 6000 text,
                                       PUBLIC_PROMPT @ take 6000 text],
                   ticks = Suc (ticks w')\<rparr>)))"
proof -
  have run: "main e conn w = index_paths e (ensure_db conn) w (ps @ p # qs)"
    using assms(1) by (simp add: main_flat ensure_db_def)
  have stop: "main e conn w = (Some err, c, w'')" if "index_file e c w' p = (Inl err, w'')"
    for err w''
    using run index_paths_stop [OF assms(2) that assms(4)] by simp
  show ?thesis
    using ollama_generate_failure [of e log prompt]
      stop [OF index_file_private_failure [OF assms(3)]]
      stop [OF index_file_public_failure [OF assms(3)]]
    by (simp add: Let_def)
qed

lemma down_candidates: "candidates down_env = [notes_md]"
  by (simp add: candidates_def down_env_def demo_env_def TARGET_DIRS_def BASE_def)

lemma should_index_is_dir: "is_dir e' = is_dir e \<Longrightarrow> should_index e' p = should_index e p"
  by (simp add: should_index_def)

lemma down_should_index: "should_index down_env notes_md"
  using demo_should_index should_index_is_dir [of down_env demo_env notes_md]
  by (simp add: down_env_def)

lemma down_read: "read_text down_env notes_md = Inr ''Meeting with Alice about salary $120k''"
  using demo_notes_readable by (simp add: down_env_def demo_env_def)

lemma down_run:
  "ollama_run down_env n prompt = \<lparr>returncode = 1, stdout = [],
     stderr = ''Error: could not connect to ollama app, is it running?'' @ [CHR 0x0A]\<rparr>"
  by (simp add: down_env_def)

theorem backend_failure_aborts_witness:
  "main down_env empty_store start_world =
     (Some (RuntimeError ''Error: could not connect to ollama app, is it running?''),
      empty_store,
      \<lparr>calls = [PRIVATE_PROMPT @ ''Meeting with Alice about salary $120k''], ticks = 1\<rparr>)"
  using backend_failure_aborts [of down_env "[]" notes_md "[]"
      "''Meeting with Alice about salary $120k''" empty_store start_world empty_store start_world
      "[]" "[]"]
    down_candidates down_should_index down_read
  by (simp add: down_run ensure_db_def start_world_def strip_def isspace_def str_or_def)

section \<open>Invariants of the batch run\<close>

lemma under_exclusion_iff: "under_exclusion p exs \<longleftrightarrow> (\<exists>ex\<in>set exs. prefix ex p)"
  by (induction exs) (auto simp: relative_to_def)

lemma should_index_not_excluded: "should_index e p \<Longrightarrow> \<not> under_exclusion p EXCLUDE"
  by (simp add: should_index_def split: if_splits)

lemma docs_upsert_chunk: "docs (upsert_chunk conn i l c s) = docs conn"
  by (simp add: upsert_chunk_def)

lemma chunks_upsert_doc: "chunks (snd (upsert_doc conn p now)) = chunks conn"
  by (simp add: upsert_doc_def Let_def split: option.splits)

lemma paths_upsert_doc:
  "d_path ` set (docs (snd (upsert_doc conn p now))) = insert p (d_path ` set (docs conn))"
proof (cases "find (\<lambda>d. d_path d = p) (docs conn)")
  case None
  then show ?thesis by (auto simp: upsert_doc_def select_id_def Let_def)
next
  case (Some d)
  then have "d \<in> set (docs conn)" "d_path d = p"
    by (auto simp: find_Some_iff)
  then have "p \<in> d_path ` set (docs conn)" by force
  moreover have "d_path ` set (map (\<lambda>r. if d_id r = j then r\<lparr>d_updated_at := now\<rparr> else r) ds)
      = d_path ` set ds" for j and ds :: "doc list"
    by (induction ds) auto
  ultimately show ?thesis using Some by (auto simp: upsert_doc_def select_id_def)
qed

text \<open>What a successful pass through the loop body did.\<close>

lemma index_file_Inr:
  assumes "index_file e conn w p = (Inr conn', w')"
  shows "\<exists>text s1 s2.
     read_text e p = Inr text
     \<and> conn' = upsert_chunk
          (upsert_chunk (snd (upsert_doc conn p (utcnow e (ticks w))))
             (fst (upsert_doc conn p (utcnow e (ticks w)))) ''private'' (take 10000 text) s1)
          (fst (upsert_doc conn p (utcnow e (ticks w)))) ''public'' (take 10000 text) s2
     \<and> w' = \<lparr>calls = calls w @ [PRIVATE_PROMPT @ take 6000 text, PUBLIC_PROMPT @ take 6000 text],
             ticks = Suc (ticks w)\<rparr>"
  using assms
  by (auto simp: index_file_def summarize_private_def summarize_public_def ollama_generate_def
      Let_def split: sum.splits prod.splits if_splits)

text \<open>What any pass through the loop body submitted to the backend.\<close>

lemma index_file_calls:
  assumes "index_file e conn w p = (r, w')"
  shows "\<exists>text k. calls w' =
           calls w @ take k [PRIVATE_PROMPT @ take 6000 text, PUBLIC_PROMPT @ take 6000 text]"
proof (cases "read_text e p")
  case (Inl err)
  then have "calls w' = calls w" using assms by (simp add: index_file_def)
  then have "calls w' = calls w @ take 0 [PRIVATE_PROMPT @ take 6000 [], PUBLIC_PROMPT @ take 6000 []]"
    by simp
  then show ?thesis by blast
next
  case (Inr t)
  have "calls w' = calls w @ take 1 [PRIVATE_PROMPT @ take 6000 t, PUBLIC_PROMPT @ take 6000 t]
      \<or> calls w' = calls w @ take 2 [PRIVATE_PROMPT @ take 6000 t, PUBLIC_PROMPT @ take 6000 t]"
    using assms Inr
    by (auto simp: index_file_def summarize_private_def summarize_public_def ollama_generate_def
        Let_def split: sum.splits prod.splits if_splits)
  then show ?thesis by blast
qed

lemma index_paths_invariant:
  assumes step: "\<And>conn w p r w'. I conn w \<Longrightarrow> should_index e p \<Longrightarrow>
        index_file e conn w p = (r, w') \<Longrightarrow>
        (case r of Inl err \<Rightarrow> I conn w' | Inr conn' \<Rightarrow> I conn' w')"
    and "I conn w"
    and "index_paths e conn w ps = (r, conn', w')"
  shows "I conn' w'"
  using assms(2,3)
proof (induction ps arbitrary: conn w)
  case Nil
  then show ?case by simp
next
  case (Cons p ps)
  show ?case
  proof (cases "should_index e p")
    case False
    then show ?thesis using Cons by simp
  next
    case True
    obtain r1 w1 where f: "index_file e conn w p = (r1, w1)" by (cases "index_file e conn w p")
    show ?thesis
    proof (cases r1)
      case (Inl err)
      then show ?thesis using Cons.prems f True step [OF Cons.prems(1) True f] by simp
    next
      case (Inr c1)
      then show ?thesis using Cons.prems f True step [OF Cons.prems(1) True f] Cons.IH [of c1 w1]
        by simp
    qed
  qed
qed

lemma reachable_invariant:
  assumes start: "I empty_store start_world"
    and step: "\<And>e conn w p r w'. I conn w \<Longrightarrow> should_index e p \<Longrightarrow>
        index_file e conn w p = (r, w') \<Longrightarrow>
        (case r of Inl err \<Rightarrow> I conn w' | Inr conn' \<Rightarrow> I conn' w')"
    and "reachable conn w"
  shows "I conn w"
  using assms(3)
proof (induction rule: reachable.induct)
  case reachable_start
  show ?case by (rule start)
next
  case (reachable_main conn w e r conn' w')
  then have "index_paths e conn w (candidates e) = (r, conn', w')" by (simp add: main_flat)
  then show ?case using index_paths_invariant [of I e conn w] step reachable_main.IH by blast
qed

section \<open>The exclusion boundary\<close>

lemma index_file_keeps_exclusion:
  assumes "\<forall>d\<in>set (docs conn). \<not> under_exclusion (d_path d) EXCLUDE"
    and "should_index e p"
    and "index_file e conn w p = (Inr conn', w')"
  shows "\<forall>d\<in>set (docs conn'). \<not> under_exclusion (d_path d) EXCLUDE"
proof -
  obtain t s1 s2 where c: "conn' = upsert_chunk
          (upsert_chunk (snd (upsert_doc conn p (utcnow e (ticks w))))
             (fst (upsert_doc conn p (utcnow e (ticks w)))) ''private'' (take 10000 t) s1)
          (fst (upsert_doc conn p (utcnow e (ticks w)))) ''public'' (take 10000 t) s2"
    using index_file_Inr [OF assms(3)] by blast
  have "d_path ` set (docs conn') = insert p (d_path ` set (docs conn))"
    using c by (simp add: docs_upsert_chunk paths_upsert_doc)
  then have h: "d_path d = p \<or> d_path d \<in> d_path ` set (docs conn)" if "d \<in> set (docs conn')" for d
    using that by blast
  show ?thesis
  proof
    fix d
    assume m: "d \<in> set (docs conn')"
    show "\<not> under_exclusion (d_path d) EXCLUDE"
    proof (cases "d_path d = p")
      case True
      then show ?thesis using should_index_not_excluded [OF assms(2)] by simp
    next
      case False
      then obtain d0 where "d0 \<in> set (docs conn)" and "d_path d = d_path d0"
        using h [OF m] by auto
      then show ?thesis using assms(1) by simp
    qed
  qed
qed

lemma reachable_no_excluded_doc:
  "reachable conn w \<Longrightarrow> \<forall>d\<in>set (docs conn). \<not> under_exclusion (d_path d) EXCLUDE"
proof (rule reachable_invariant
    [where I = "\<lambda>conn w. \<forall>d\<in>set (docs conn). \<not> under_exclusion (d_path d) EXCLUDE"])
  show "\<forall>d\<in>set (docs empty_store). \<not> under_exclusion (d_path d) EXCLUDE"
    by (simp add: empty_store_def)
next
  fix e conn w p r w'
  assume "\<forall>d\<in>set (docs conn). \<not> under_exclusion (d_path d) EXCLUDE"
    and "should_index e p" and "index_file e conn w p = (r, w')"
  then show "case r of Inl err \<Rightarrow> \<forall>d\<in>set (docs conn). \<not> under_exclusion (d_path d) EXCLUDE
      | Inr conn' \<Rightarrow> \<forall>d\<in>set (docs conn'). \<not> under_exclusion (d_path d) EXCLUDE"
    using index_file_keeps_exclusion [of conn e p w] by (cases r) auto
qed

lemma index_paths_cong:
  assumes "is_dir e' = is_dir e" and "ollama_run e' = ollama_run e" and "utcnow e' = utcnow e"
    and rd: "\<And>p. should_index e p \<Longrightarrow> read_text e' p = read_text e p"
  shows "index_paths e' conn w ps = index_paths e conn w ps"
proof (induction ps arbitrary: conn w)
  case Nil
  show ?case by simp
next
  case (Cons p ps)
  have si: "should_index e' p = should_index e p"
    using assms(1) by (simp add: should_index_def)
  show ?case
  proof (cases "should_index e p")
    case False
    then show ?thesis using si Cons by simp
  next
    case True
    have sp: "summarize_private e' log t = summarize_private e log t" for log t
      by (simp add: summarize_private_def ollama_generate_def assms(2))
    have su: "summarize_public e' log t = summarize_public e log t" for log t
      by (simp add: summarize_public_def ollama_generate_def assms(2))
    have "index_file e' c v p = index_file e c v p" for c v
      unfolding index_file_def sp su assms(3) rd [OF True] by (rule refl)
    then show ?thesis using si True Cons by (simp split: prod.splits sum.splits)
  qed
qed

lemma index_paths_ignores_excluded:
  assumes "under_exclusion q EXCLUDE"
  shows "index_paths (e\<lparr>read_text := (read_text e)(q := t)\<rparr>) conn w ps = index_paths e conn w ps"
proof (rule index_paths_cong)
  fix p
  assume "should_index e p"
  then have "p \<noteq> q" using assms should_index_not_excluded by blast
  then show "read_text (e\<lparr>read_text := (read_text e)(q := t)\<rparr>) p = read_text e p" by simp
qed simp_all

text \<open>
  C3. In every state that runs of the batch-index operation reach, a path under an
  exclusion prefix has no document row, hence no chunk row belongs to it, whatever its
  extension. No run indexes such a path, and the text of the file there never enters a
  run: replacing what reading it returns changes neither the store, nor the prompts
  submitted to the backend, nor the outcome.
\<close>

theorem excluded_never_indexed:
  assumes "reachable conn w" and "ex \<in> set EXCLUDE" and "prefix ex p"
  shows "(\<forall>d\<in>set (docs conn). d_path d \<noteq> p)
     \<and> (\<forall>c\<in>set (chunks conn). \<forall>d\<in>set (docs conn). c_doc_id c = d_id d \<longrightarrow> d_path d \<noteq> p)
     \<and> \<not> should_index e p
     \<and> main (e\<lparr>read_text := (read_text e)(p := t)\<rparr>) conn w = main e conn w"
proof -
  have u: "under_exclusion p EXCLUDE"
    using assms(2,3) by (auto simp: under_exclusion_iff)
  have no_doc: "\<forall>d\<in>set (docs conn). d_path d \<noteq> p"
    using reachable_no_excluded_doc [OF assms(1)] u by auto
  have "candidates (e\<lparr>read_text := (read_text e)(p := t)\<rparr>) = candidates e"
    by (simp add: candidates_def)
  then have "main (e\<lparr>read_text := (read_text e)(p := t)\<rparr>) conn w = main e conn w"
    using index_paths_ignores_excluded [OF u] by (simp add: main_flat)
  then show ?thesis using no_doc u should_index_not_excluded by blast
qed

lemma leaky_candidates: "candidates leaky_env = [diary_md, notes_md]"
  by (simp add: candidates_def leaky_env_def demo_env_def TARGET_DIRS_def BASE_def)

lemma leaky_should_index: "should_index leaky_env notes_md"
  using demo_should_index should_index_is_dir [of leaky_env demo_env notes_md]
  by (simp add: leaky_env_def)

lemma diary_excluded: "hd EXCLUDE \<in> set EXCLUDE \<and> prefix (hd EXCLUDE) diary_md"
  by (simp add: EXCLUDE_def diary_md_def)

lemma leaky_index_notes:
  "index_file leaky_env empty_store start_world notes_md = (Inr indexed_store, indexed_world)"
  by (simp add: index_file_def leaky_env_def demo_env_def empty_store_def start_world_def
      upsert_doc_def select_id_def lastrowid_def upsert_chunk_def summarize_private_def
      summarize_public_def ollama_generate_def strip_def isspace_def indexed_store_def
      indexed_world_def)

lemma leaky_main: "main leaky_env empty_store start_world = (None, indexed_store, indexed_world)"
proof -
  have "\<not> should_index leaky_env diary_md"
    using diary_excluded by (auto simp: should_index_def under_exclusion_iff)
  then show ?thesis
    by (simp add: main_flat leaky_candidates leaky_should_index leaky_index_notes)
qed

lemma indexed_reachable: "reachable indexed_store indexed_world"
  using reachable_main [OF reachable_start leaky_main] .

theorem excluded_never_indexed_witness:
  "reachable indexed_store indexed_world
   \<and> prefix (hd EXCLUDE) diary_md
   \<and> str_lower (suffix_of diary_md) = ''.md''
   \<and> map d_path (docs indexed_store) = [notes_md]
   \<and> main (leaky_env\<lparr>read_text := (read_text leaky_env)(diary_md := Inr ''dear diary'')\<rparr>)
        indexed_store indexed_world
      = main leaky_env indexed_store indexed_world"
  using excluded_never_indexed [of indexed_store indexed_world "hd EXCLUDE" diary_md leaky_env
      "Inr ''dear diary''"] indexed_reachable diary_excluded
  by (simp add: indexed_store_def diary_md_def suffix_of_def rfind_dot_def str_lower_def
      lower_def upt_rec)

section \<open>Truncation bounds\<close>

lemma in_chunks_upsert_chunk:
  "r \<in> set (chunks (upsert_chunk conn i l c s)) \<Longrightarrow> c_content r = c \<or> r \<in> set (chunks conn)"
  by (auto simp: upsert_chunk_def)

lemma index_file_keeps_bounds:
  assumes "\<forall>c\<in>set (chunks conn). length (c_content c) \<le> 10000"
    and "index_file e conn w p = (Inr conn', w')"
  shows "\<forall>c\<in>set (chunks conn'). length (c_content c) \<le> 10000"
proof -
  obtain t s1 s2 where c: "conn' = upsert_chunk
          (upsert_chunk (snd (upsert_doc conn p (utcnow e (ticks w))))
             (fst (upsert_doc conn p (utcnow e (ticks w)))) ''private'' (take 10000 t) s1)
          (fst (upsert_doc conn p (utcnow e (ticks w)))) ''public'' (take 10000 t) s2"
    using index_file_Inr [OF assms(2)] by blast
  show ?thesis
  proof
    fix r
    assume "r \<in> set (chunks conn')"
    then have "c_content r = take 10000 t \<or> r \<in> set (chunks (snd (upsert_doc conn p (utcnow e (ticks w)))))"
      unfolding c by (blast dest: in_chunks_upsert_chunk)
    then have "c_content r = take 10000 t \<or> r \<in> set (chunks conn)"
      by (simp add: chunks_upsert_doc)
    then show "length (c_content r) \<le> 10000" using assms(1) by auto
  qed
qed

lemma index_file_keeps_prompts:
  assumes "\<forall>pr\<in>set (calls w). \<exists>body. length body \<le> 6000
              \<and> (pr = PRIVATE_PROMPT @ body \<or> pr = PUBLIC_PROMPT @ body)"
    and "index_file e conn w p = (r, w')"
  shows "\<forall>pr\<in>set (calls w'). \<exists>body. length body \<le> 6000
              \<and> (pr = PRIVATE_PROMPT @ body \<or> pr = PUBLIC_PROMPT @ body)"
proof -
  obtain t k where c: "calls w' =
      calls w @ take k [PRIVATE_PROMPT @ take 6000 t, PUBLIC_PROMPT @ take 6000 t]"
    using index_file_calls [OF assms(2)] by blast
  show ?thesis
  proof
    fix pr
    assume "pr \<in> set (calls w')"
    then have "pr \<in> set (calls w)
        \<or> pr \<in> set (take k [PRIVATE_PROMPT @ take 6000 t, PUBLIC_PROMPT @ take 6000 t])"
      unfolding c by simp
    moreover have "pr \<in> set [PRIVATE_PROMPT @ take 6000 t, PUBLIC_PROMPT @ take 6000 t]"
      if "pr \<in> set (take k [PRIVATE_PROMPT @ take 6000 t, PUBLIC_PROMPT @ take 6000 t])"
      using that by (rule in_set_takeD)
    ultimately have "pr \<in> set (calls w)
        \<or> pr \<in> set [PRIVATE_PROMPT @ take 6000 t, PUBLIC_PROMPT @ take 6000 t]"
      by blast
    then consider "pr \<in> set (calls w)" | "pr = PRIVATE_PROMPT @ take 6000 t"
      | "pr = PUBLIC_PROMPT @ take 6000 t"
      by auto
    then show "\<exists>body. length body \<le> 6000
              \<and> (pr = PRIVATE_PROMPT @ body \<or> pr = PUBLIC_PROMPT @ body)"
    proof cases
      case 1
      then show ?thesis using assms(1) by blast
    next
      case 2
      have "length (take 6000 t) \<le> 6000" by simp
      then show ?thesis using 2 by blast
    next
      case 3
      have "length (take 6000 t) \<le> 6000" by simp
      then show ?thesis using 3 by blast
    qed
  qed
qed

text \<open>
  C8. In every state that runs of the batch-index operation reach, the content snapshot
  of every chunk has at most 10000 characters, and every prompt submitted to the backend
  is one of the two fixed instructions followed by at most 6000 characters of document
  text.
\<close>

theorem snapshot_and_prompt_bounded:
  assumes "reachable conn w"
  shows "(\<forall>c\<in>set (chunks conn). length (c_content c) \<le> 10000)
     \<and> (\<forall>pr\<in>set (calls w). \<exists>body. length body \<le> 6000
            \<and> (pr = PRIVATE_PROMPT @ body \<or> pr = PUBLIC_PROMPT @ body))"
proof (rule reachable_invariant [where I = "\<lambda>conn w.
     (\<forall>c\<in>set (chunks conn). length (c_content c) \<le> 10000)
     \<and> (\<forall>pr\<in>set (calls w). \<exists>body. length body \<le> 6000
            \<and> (pr = PRIVATE_PROMPT @ body \<or> pr = PUBLIC_PROMPT @ body))", OF _ _ assms])
  show "(\<forall>c\<in>set (chunks empty_store). length (c_content c) \<le> 10000)
     \<and> (\<forall>pr\<in>set (calls start_world). \<exists>body. length body \<le> 6000
            \<and> (pr = PRIVATE_PROMPT @ body \<or> pr = PUBLIC_PROMPT @ body))"
    by (simp add: empty_store_def start_world_def)
next
  fix e conn w p r w'
  assume inv: "(\<forall>c\<in>set (chunks conn). length (c_content c) \<le> 10000)
     \<and> (\<forall>pr\<in>set (calls w). \<exists>body. length body \<le> 6000
            \<and> (pr = PRIVATE_PROMPT @ body \<or> pr = PUBLIC_PROMPT @ body))"
    and f: "index_file e conn w p = (r, w')"
  have pr: "\<forall>pr\<in>set (calls w'). \<exists>body. length body \<le> 6000
            \<and> (pr = PRIVATE_PROMPT @ body \<or> pr = PUBLIC_PROMPT @ body)"
    using index_file_keeps_prompts [OF _ f] inv by blast
  show "case r of
      Inl err \<Rightarrow> (\<forall>c\<in>set (chunks conn). length (c_content c) \<le> 10000)
        \<and> (\<forall>pr\<in>set (calls w'). \<exists>body. length body \<le> 6000
            \<and> (pr = PRIVATE_PROMPT @ body \<or> pr = PUBLIC_PROMPT @ body))
    | Inr conn' \<Rightarrow> (\<forall>c\<in>set (chunks conn'). length (c_content c) \<le> 10000)
        \<and> (\<forall>pr\<in>set (calls w'). \<exists>body. length body \<le> 6000
            \<and> (pr = PRIVATE_PROMPT @ body \<or> pr = PUBLIC_PROMPT @ body))"
  proof (cases r)
    case (Inl err)
    then show ?thesis using inv pr by simp
  next
    case (Inr c1)
    then show ?thesis using index_file_keeps_bounds [of conn e w p c1 w'] inv pr f by simp
  qed
qed

lemma long_candidates: "candidates long_env = [notes_md]"
  by (simp add: candidates_def long_env_def demo_env_def TARGET_DIRS_def BASE_def)

lemma long_should_index: "should_index long_env notes_md"
  using demo_should_index should_index_is_dir [of long_env demo_env notes_md]
  by (simp add: long_env_def)

lemma long_index_notes:
  "index_file long_env empty_store start_world notes_md = (Inr long_store, long_world)"
  by (simp add: index_file_def long_env_def demo_env_def empty_store_def start_world_def
      upsert_doc_def select_id_def lastrowid_def upsert_chunk_def summarize_private_def
      summarize_public_def ollama_generate_def strip_def isspace_def long_store_def
      long_world_def long_text_def)

lemma long_main: "main long_env empty_store start_world = (None, long_store, long_world)"
  by (simp add: main_flat long_candidates long_should_index long_index_notes)

lemma long_reachable: "reachable long_store long_world"
  using reachable_main [OF reachable_start long_main] .

theorem snapshot_and_prompt_bounded_witness:
  "reachable long_store long_world
   \<and> read_text long_env notes_md = Inr long_text \<and> length long_text = 20000
   \<and> map c_content (chunks long_store) = [take 10000 long_text, take 10000 long_text]
   \<and> calls long_world = [PRIVATE_PROMPT @ take 6000 long_text, PUBLIC_PROMPT @ take 6000 long_text]
   \<and> list_all (\<lambda>c. length (c_content c) \<le> 10000) (chunks long_store)
   \<and> length (take 6000 long_text) \<le> 6000"
  using snapshot_and_prompt_bounded [OF long_reachable] long_reachable
  by (simp add: long_store_def long_world_def long_text_def long_env_def)

section \<open>The two layers of a document\<close>

lemma filter_upsert_chunk:
  "filter (\<lambda>r. c_doc_id r = j \<and> c_layer r = l') (chunks (upsert_chunk conn i l c s)) =
     (if j = i \<and> l' = l
      then [\<lparr>c_doc_id = i, c_layer = l, c_content = c, c_tags = [], c_summary = s\<rparr>]
      else filter (\<lambda>r. c_doc_id r = j \<and> c_layer r = l') (chunks conn))"
proof -
  have "filter (\<lambda>r. c_doc_id r = j \<and> c_layer r = l')
          (filter (\<lambda>r. \<not> (c_doc_id r = i \<and> c_layer r = l)) xs)
      = (if j = i \<and> l' = l then [] else filter (\<lambda>r. c_doc_id r = j \<and> c_layer r = l') xs)"
    for xs :: "chunk list"
    by (induction xs) auto
  then show ?thesis by (auto simp: upsert_chunk_def)
qed

lemma select_id_upsert_chunk: "select_id (upsert_chunk conn i l c s) q = select_id conn q"
  by (simp add: select_id_def upsert_chunk_def)

lemma select_id_in_docs:
  "select_id conn p = Some i \<Longrightarrow> \<exists>d\<in>set (docs conn). d_path d = p \<and> d_id d = i"
  by (auto simp: select_id_def find_Some_iff)

lemma ids_upsert_doc:
  "distinct (map d_id (docs conn)) \<Longrightarrow> distinct (map d_id (docs (snd (upsert_doc conn p now))))"
proof (cases "select_id conn p")
  case None
  assume d: "distinct (map d_id (docs conn))"
  have "lastrowid (docs conn) \<notin> d_id ` set (docs conn)"
    using lastrowid_fresh [of _ "docs conn"] by force
  then show ?thesis using d None by (simp add: upsert_doc_def Let_def)
next
  case (Some j)
  assume d: "distinct (map d_id (docs conn))"
  have "d_id \<circ> (\<lambda>r::doc. if d_id r = j then r\<lparr>d_updated_at := now\<rparr> else r) = d_id"
    by (auto simp: fun_eq_iff)
  then show ?thesis using d Some by (simp add: upsert_doc_def)
qed

text \<open>With distinct ids, the id \<open>upsert_doc\<close> returns for a path is the id of no other
  registered path.\<close>

lemma upsert_doc_other_id:
  assumes "distinct (map d_id (docs conn))" and "select_id conn p = Some i" and "q \<noteq> p"
  shows "fst (upsert_doc conn q now) \<noteq> i"
proof -
  obtain dp where dp: "dp \<in> set (docs conn)" "d_path dp = p" "d_id dp = i"
    using select_id_in_docs [OF assms(2)] by blast
  show ?thesis
  proof (cases "select_id conn q")
    case None
    then have "fst (upsert_doc conn q now) = lastrowid (docs conn)"
      by (simp add: upsert_doc_def Let_def)
    then show ?thesis using lastrowid_fresh [OF dp(1)] dp(3) by simp
  next
    case (Some j)
    then obtain dq where dq: "dq \<in> set (docs conn)" "d_path dq = q" "d_id dq = j"
      using select_id_in_docs by blast
    have "j \<noteq> i"
    proof
      assume "j = i"
      then have "d_id dq = d_id dp" using dp dq by simp
      then have "dq = dp"
        using assms(1) dp(1) dq(1) by (simp add: distinct_map inj_on_def)
      then show False using dp dq assms(3) by simp
    qed
    then show ?thesis using Some by (simp add: upsert_doc_def)
  qed
qed

lemma index_file_success:
  assumes "index_file e conn w p = (Inr conn', w')"
  obtains t i c1 s1 s2 where "read_text e p = Inr t"
    and "upsert_doc conn p (utcnow e (ticks w)) = (i, c1)"
    and "conn' = upsert_chunk (upsert_chunk c1 i ''private'' (take 10000 t) s1)
                   i ''public'' (take 10000 t) s2"
proof -
  obtain t s1 s2 where "read_text e p = Inr t"
    and "conn' = upsert_chunk
          (upsert_chunk (snd (upsert_doc conn p (utcnow e (ticks w))))
             (fst (upsert_doc conn p (utcnow e (ticks w)))) ''private'' (take 10000 t) s1)
          (fst (upsert_doc conn p (utcnow e (ticks w)))) ''public'' (take 10000 t) s2"
    using index_file_Inr [OF assms] by blast
  then show ?thesis
    using that [of t "fst (upsert_doc conn p (utcnow e (ticks w)))"
        "snd (upsert_doc conn p (utcnow e (ticks w)))" s1 s2]
    by simp
qed

lemma index_file_establishes:
  assumes "index_file e conn w p = (Inr conn', w')" and "read_text e p = Inr t"
  shows "both_layers conn' p t"
proof (rule index_file_success [OF assms(1)])
  fix t' i c1 s1 s2
  assume r: "read_text e p = Inr t'"
    and u: "upsert_doc conn p (utcnow e (ticks w)) = (i, c1)"
    and c: "conn' = upsert_chunk (upsert_chunk c1 i ''private'' (take 10000 t') s1)
                   i ''public'' (take 10000 t') s2"
  have t: "t' = t" using r assms(2) by simp
  have "select_id c1 p = Some i"
    using select_id_upsert_doc [of conn p "utcnow e (ticks w)" p] u by simp
  then have "select_id conn' p = Some i"
    by (simp add: c select_id_upsert_chunk)
  then show ?thesis
    by (simp add: both_layers_def c t filter_upsert_chunk)
qed

lemma index_file_preserves:
  assumes "distinct (map d_id (docs conn))" and "both_layers conn p t" and "q \<noteq> p"
    and "index_file e conn w q = (Inr conn', w')"
  shows "both_layers conn' p t"
proof (rule index_file_success [OF assms(4)])
  fix t' j c1 s1 s2
  assume u: "upsert_doc conn q (utcnow e (ticks w)) = (j, c1)"
    and c: "conn' = upsert_chunk (upsert_chunk c1 j ''private'' (take 10000 t') s1)
                   j ''public'' (take 10000 t') s2"
  obtain i where i: "select_id conn p = Some i"
    using assms(2) by (auto simp: both_layers_def split: option.splits)
  have ji: "j \<noteq> i"
    using upsert_doc_other_id [OF assms(1) i assms(3), of "utcnow e (ticks w)"] u by simp
  have "select_id c1 p = Some i"
    using select_id_upsert_doc [of conn q "utcnow e (ticks w)" p] u i assms(3) by simp
  then have s: "select_id conn' p = Some i"
    by (simp add: c select_id_upsert_chunk)
  have "chunks c1 = chunks conn"
    using chunks_upsert_doc [of conn q "utcnow e (ticks w)"] u by simp
  then have "filter (\<lambda>r. c_doc_id r = i \<and> c_layer r = l) (chunks conn')
      = filter (\<lambda>r. c_doc_id r = i \<and> c_layer r = l) (chunks conn)" for l
    using ji by (simp add: c filter_upsert_chunk)
  then show ?thesis using assms(2) i s by (simp add: both_layers_def)
qed

lemma index_file_keeps_ids:
  assumes "distinct (map d_id (docs conn))" and "index_file e conn w q = (Inr conn', w')"
  shows "distinct (map d_id (docs conn'))"
proof (rule index_file_success [OF assms(2)])
  fix t' j c1 s1 s2
  assume u: "upsert_doc conn q (utcnow e (ticks w)) = (j, c1)"
    and c: "conn' = upsert_chunk (upsert_chunk c1 j ''private'' (take 10000 t') s1)
                   j ''public'' (take 10000 t') s2"
  have "distinct (map d_id (docs c1))"
    using ids_upsert_doc [OF assms(1), of q "utcnow e (ticks w)"] u by simp
  then show ?thesis by (simp add: c docs_upsert_chunk)
qed

lemma index_paths_both_layers:
  assumes "read_text e p = Inr t" and "should_index e p"
  shows "distinct (map d_id (docs conn)) \<Longrightarrow> p \<in> set ps \<or> both_layers conn p t \<Longrightarrow>
     index_paths e conn w ps = (None, conn', w') \<Longrightarrow> both_layers conn' p t"
proof (induction ps arbitrary: conn w)
  case Nil
  then show ?case by simp
next
  case (Cons q ps)
  show ?case
  proof (cases "should_index e q")
    case False
    then have "q \<noteq> p" using assms(2) by auto
    then show ?thesis using Cons False by simp
  next
    case True
    obtain r1 w1 where f: "index_file e conn w q = (r1, w1)" by (cases "index_file e conn w q")
    then obtain c1 where r1: "r1 = Inr c1"
      using Cons.prems(3) True by (cases r1) auto
    have rest: "index_paths e c1 w1 ps = (None, conn', w')"
      using Cons.prems(3) True f r1 by simp
    have ids: "distinct (map d_id (docs c1))"
      using index_file_keeps_ids [OF Cons.prems(1)] f r1 by simp
    have "both_layers c1 p t" if "q = p"
      using index_file_establishes [of e conn w p c1 w1 t] f r1 that assms(1) by simp
    moreover have "both_layers c1 p t" if "q \<noteq> p" "both_layers conn p t"
      using index_file_preserves [OF Cons.prems(1) that(2) that(1)] f r1 by simp
    ultimately have "p \<in> set ps \<or> both_layers c1 p t"
      using Cons.prems(2) by auto
    then show ?thesis using Cons.IH [OF ids _ rest] by simp
  qed
qed

lemma reachable_distinct_ids: "reachable conn w \<Longrightarrow> distinct (map d_id (docs conn))"
proof (rule reachable_invariant [where I = "\<lambda>conn w. distinct (map d_id (docs conn))"])
  show "distinct (map d_id (docs empty_store))" by (simp add: empty_store_def)
next
  fix e conn w p r w'
  assume "distinct (map d_id (docs conn))" and "index_file e conn w p = (r, w')"
  then show "case r of Inl err \<Rightarrow> distinct (map d_id (docs conn))
      | Inr conn' \<Rightarrow> distinct (map d_id (docs conn'))"
    using index_file_keeps_ids [of conn e w p] by (cases r) auto
qed

lemma reachable_layers_agree:
  "reachable conn w \<Longrightarrow>
     \<forall>i. map c_content (filter (\<lambda>r. c_doc_id r = i \<and> c_layer r = ''private'') (chunks conn))
        = map c_content (filter (\<lambda>r. c_doc_id r = i \<and> c_layer r = ''public'') (chunks conn))"
proof (rule reachable_invariant [where I = "\<lambda>conn w.
     \<forall>i. map c_content (filter (\<lambda>r. c_doc_id r = i \<and> c_layer r = ''private'') (chunks conn))
        = map c_content (filter (\<lambda>r. c_doc_id r = i \<and> c_layer r = ''public'') (chunks conn))"])
  show "\<forall>i. map c_content (filter (\<lambda>r. c_doc_id r = i \<and> c_layer r = ''private'') (chunks empty_store))
        = map c_content (filter (\<lambda>r. c_doc_id r = i \<and> c_layer r = ''public'') (chunks empty_store))"
    by (simp add: empty_store_def)
next
  fix e conn w p r w'
  assume inv: "\<forall>i. map c_content (filter (\<lambda>r. c_doc_id r = i \<and> c_layer r = ''private'') (chunks conn))
        = map c_content (filter (\<lambda>r. c_doc_id r = i \<and> c_layer r = ''public'') (chunks conn))"
    and f: "index_file e conn w p = (r, w')"
  show "case r of
      Inl err \<Rightarrow> \<forall>i. map c_content (filter (\<lambda>r. c_doc_id r = i \<and> c_layer r = ''private'') (chunks conn))
        = map c_content (filter (\<lambda>r. c_doc_id r = i \<and> c_layer r = ''public'') (chunks conn))
    | Inr conn' \<Rightarrow> \<forall>i. map c_content (filter (\<lambda>r. c_doc_id r = i \<and> c_layer r = ''private'') (chunks conn'))
        = map c_content (filter (\<lambda>r. c_doc_id r = i \<and> c_layer r = ''public'') (chunks conn'))"
  proof (cases r)
    case (Inl err)
    then show ?thesis using inv by simp
  next
    case (Inr c2)
    then have f2: "index_file e conn w p = (Inr c2, w')" using f by simp
    show ?thesis
    proof (rule index_file_success [OF f2])
      fix t' j c1 s1 s2
      assume u: "upsert_doc conn p (utcnow e (ticks w)) = (j, c1)"
        and c: "c2 = upsert_chunk (upsert_chunk c1 j ''private'' (take 10000 t') s1)
                   j ''public'' (take 10000 t') s2"
      have "chunks c1 = chunks conn"
        using chunks_upsert_doc [of conn p "utcnow e (ticks w)"] u by simp
      then show ?thesis using inv Inr by (simp add: c filter_upsert_chunk)
    qed
  qed
qed

text \<open>
  C10. In every state that runs of the batch-index operation reach, the private-layer
  chunks and the public-layer chunks of each document id hold the same content
  snapshots. After a run that ends normally, every readable candidate that passed
  \<open>should_index\<close> is registered, and its document has exactly one private-layer and one
  public-layer chunk whose content is, in both, the first 10000 characters of the text
  read from the file, as read: the content of the public-layer chunk is not redacted.
\<close>

theorem both_layers_same_snapshot:
  assumes "reachable conn w"
  shows "(\<forall>i. map c_content (filter (\<lambda>r. c_doc_id r = i \<and> c_layer r = ''private'') (chunks conn))
           = map c_content (filter (\<lambda>r. c_doc_id r = i \<and> c_layer r = ''public'') (chunks conn)))
     \<and> (main e conn w = (None, conn', w') \<and> p \<in> set (candidates e) \<and> should_index e p
          \<and> read_text e p = Inr text \<longrightarrow>
        (\<exists>i. select_id conn' p = Some i
           \<and> map c_content (filter (\<lambda>r. c_doc_id r = i \<and> c_layer r = ''private'') (chunks conn'))
               = [take 10000 text]
           \<and> map c_content (filter (\<lambda>r. c_doc_id r = i \<and> c_layer r = ''public'') (chunks conn'))
               = [take 10000 text]))"
proof -
  have run: "both_layers conn' p text"
    if "main e conn w = (None, conn', w')" "p \<in> set (candidates e)" "should_index e p"
      "read_text e p = Inr text"
    using index_paths_both_layers [OF that(4,3) reachable_distinct_ids [OF assms], of "candidates e" w conn' w']
      that(1,2) by (simp add: main_flat)
  have "\<exists>i. select_id conn' p = Some i
           \<and> map c_content (filter (\<lambda>r. c_doc_id r = i \<and> c_layer r = ''private'') (chunks conn'))
               = [take 10000 text]
           \<and> map c_content (filter (\<lambda>r. c_doc_id r = i \<and> c_layer r = ''public'') (chunks conn'))
               = [take 10000 text]"
    if "both_layers conn' p text"
    using that by (auto simp: both_layers_def split: option.splits)
  then show ?thesis using reachable_layers_agree [OF assms] run by blast
qed

theorem both_layers_same_snapshot_witness:
  "reachable empty_store start_world
   \<and> main leaky_env empty_store start_world = (None, indexed_store, indexed_world)
   \<and> read_text leaky_env notes_md = Inr ''Meeting with Alice about salary $120k''
   \<and> select_id indexed_store notes_md = Some 1
   \<and> map c_content (filter (\<lambda>r. c_doc_id r = 1 \<and> c_layer r = ''private'') (chunks indexed_store))
       = [''Meeting with Alice about salary $120k'']
   \<and> map c_content (filter (\<lambda>r. c_doc_id r = 1 \<and> c_layer r = ''public'') (chunks indexed_store))
       = [''Meeting with Alice about salary $120k'']"
  using both_layers_same_snapshot [OF reachable_start, of leaky_env indexed_store indexed_world
      notes_md "''Meeting with Alice about salary $120k''"]
    leaky_main leaky_candidates leaky_should_index reachable_start
  by (simp add: indexed_store_def select_id_def leaky_env_def)

section \<open>Running the batch twice\<close>

subsection \<open>Replaying a list of rows\<close>

lemma put_append:
  "put (xs @ ys) r
     = filter (\<lambda>x. \<not> (c_doc_id x = c_doc_id r \<and> c_layer x = c_layer r)) xs @ put ys r"
  by (simp add: put_def)

lemma puts_append:
  "puts (xs @ ys) rs
     = filter (\<lambda>x. \<forall>r\<in>set rs. \<not> (c_doc_id x = c_doc_id r \<and> c_layer x = c_layer r)) xs
       @ puts ys rs"
proof (induction rs arbitrary: xs ys)
  case Nil
  show ?case by (simp add: puts_def)
next
  case (Cons r rs)
  have "puts (xs @ ys) (r # rs)
      = puts (filter (\<lambda>x. \<not> (c_doc_id x = c_doc_id r \<and> c_layer x = c_layer r)) xs @ put ys r) rs"
    by (simp add: puts_def put_append)
  also have "\<dots> = filter (\<lambda>x. \<forall>r'\<in>set rs. \<not> (c_doc_id x = c_doc_id r' \<and> c_layer x = c_layer r'))
        (filter (\<lambda>x. \<not> (c_doc_id x = c_doc_id r \<and> c_layer x = c_layer r)) xs) @ puts (put ys r) rs"
    by (rule Cons.IH)
  also have "\<dots> = filter (\<lambda>x. \<forall>r'\<in>set (r # rs). \<not> (c_doc_id x = c_doc_id r' \<and> c_layer x = c_layer r')) xs
        @ puts ys (r # rs)"
    by (auto simp: puts_def intro: filter_cong)
  finally show ?case .
qed

lemma puts_keys:
  "x \<in> set (puts ys rs) \<Longrightarrow>
     x \<in> set ys \<or> (\<exists>r\<in>set rs. c_doc_id x = c_doc_id r \<and> c_layer x = c_layer r)"
proof (induction rs arbitrary: ys)
  case Nil
  then show ?case by (simp add: puts_def)
next
  case (Cons r rs)
  from Cons.prems have "x \<in> set (puts (put ys r) rs)" by (simp add: puts_def)
  then have "x \<in> set (put ys r) \<or> (\<exists>r'\<in>set rs. c_doc_id x = c_doc_id r' \<and> c_layer x = c_layer r')"
    by (rule Cons.IH)
  then show ?case by (auto simp: put_def)
qed

lemma puts_twice: "puts (puts xs rs) rs = puts xs rs"
proof -
  let ?out = "\<lambda>x. \<forall>r\<in>set rs. \<not> (c_doc_id x = c_doc_id r \<and> c_layer x = c_layer r)"
  have split: "puts zs rs = filter ?out zs @ puts [] rs" for zs
    using puts_append [of zs "[]" rs] by simp
  have "filter ?out (puts [] rs) = []"
    using puts_keys [of _ "[]" rs] by (auto simp: filter_empty_conv)
  then have "puts (filter ?out xs @ puts [] rs) rs = filter ?out xs @ puts [] rs"
    using split [of "filter ?out xs @ puts [] rs"] by simp
  then show ?thesis using split [of xs] by simp
qed

lemma puts_puts: "puts (puts xs rs) ss = puts xs (rs @ ss)"
  by (simp add: puts_def)

lemma chunks_upsert_chunk_put:
  "chunks (upsert_chunk conn i l c s)
     = put (chunks conn) \<lparr>c_doc_id = i, c_layer = l, c_content = c, c_tags = [], c_summary = s\<rparr>"
  by (simp add: upsert_chunk_def put_def)

subsection \<open>What a run writes\<close>

lemma upsert_doc_known: "select_id conn p = Some i \<Longrightarrow> fst (upsert_doc conn p now) = i"
  by (simp add: upsert_doc_def)

lemma index_file_writes:
  assumes "index_file e conn w p = (Inr conn', w')"
  shows "chunks conn' = puts (chunks conn) (file_rows e conn w p)"
  using assms
  by (auto simp: index_file_def summarize_private_def summarize_public_def ollama_generate_def
      file_rows_def Let_def puts_def chunks_upsert_chunk_put
      chunks_upsert_doc [of conn p "utcnow e (ticks w)", symmetric]
      split: sum.splits prod.splits if_splits)

lemma index_file_registers:
  assumes "index_file e conn w p = (Inr conn', w')"
  shows "select_id conn' q =
     (if q = p then Some (fst (upsert_doc conn p (utcnow e (ticks w)))) else select_id conn q)"
proof (rule index_file_success [OF assms])
  fix t i c1 s1 s2
  assume u: "upsert_doc conn p (utcnow e (ticks w)) = (i, c1)"
    and c: "conn' = upsert_chunk (upsert_chunk c1 i ''private'' (take 10000 t) s1)
                   i ''public'' (take 10000 t) s2"
  show ?thesis
    using select_id_upsert_doc [of conn p "utcnow e (ticks w)" q] u
    by (simp add: c select_id_upsert_chunk)
qed

lemma index_file_keeps_registered:
  assumes "index_file e conn w p = (Inr conn', w')" and "select_id conn q = Some i"
  shows "select_id conn' q = Some i"
  using index_file_registers [OF assms(1), of q] assms(2) upsert_doc_known [of conn q i]
  by auto

lemma index_paths_keeps_registered:
  "index_paths e conn w ps = (r, conn', w') \<Longrightarrow> select_id conn q = Some i \<Longrightarrow>
     select_id conn' q = Some i"
proof (induction ps arbitrary: conn w)
  case Nil
  then show ?case by simp
next
  case (Cons p ps)
  show ?case
  proof (cases "should_index e p")
    case False
    then show ?thesis using Cons by simp
  next
    case True
    obtain x wa where f: "index_file e conn w p = (x, wa)" by (cases "index_file e conn w p")
    show ?thesis
    proof (cases x)
      case (Inl err)
      then show ?thesis using Cons.prems True f by simp
    next
      case (Inr ca)
      then have "select_id ca q = Some i"
        using index_file_keeps_registered [of e conn w p ca wa q i] f Cons.prems(2) by simp
      then show ?thesis using Cons.IH [of ca wa] Cons.prems(1) True f Inr by simp
    qed
  qed
qed

lemma index_paths_written:
  "index_paths e conn w ps = (r, conn', w') \<Longrightarrow> chunks conn' = puts (chunks conn) (written e conn w ps)"
proof (induction ps arbitrary: conn w)
  case Nil
  then show ?case by (simp add: puts_def)
next
  case (Cons p ps)
  show ?case
  proof (cases "should_index e p")
    case False
    then show ?thesis using Cons by simp
  next
    case True
    obtain x wa where f: "index_file e conn w p = (x, wa)" by (cases "index_file e conn w p")
    show ?thesis
    proof (cases x)
      case (Inl err)
      then show ?thesis using Cons.prems True f by (simp add: puts_def)
    next
      case (Inr ca)
      have "chunks ca = puts (chunks conn) (file_rows e conn w p)"
        using index_file_writes [of e conn w p ca wa] f Inr by simp
      moreover have "chunks conn' = puts (chunks ca) (written e ca wa ps)"
        using Cons.IH [of ca wa] Cons.prems True f Inr by simp
      ultimately show ?thesis using True f Inr by (simp add: puts_puts)
    qed
  qed
qed

subsection \<open>A deterministic backend\<close>

lemma index_file_det_failure:
  assumes det: "\<forall>n m prompt. ollama_run e n prompt = ollama_run e m prompt"
    and "index_file e conn w p = (Inl err, wa)"
  shows "\<exists>wb. index_file e conn' w' p = (Inl err, wb)"
proof -
  have d: "ollama_run e n x = ollama_run e 0 x" for n x using det by blast
  show ?thesis
    using assms(2) d [of "length (calls w)"] d [of "Suc (length (calls w))"]
      d [of "length (calls w')"] d [of "Suc (length (calls w'))"]
    by (auto simp: index_file_def summarize_private_def summarize_public_def ollama_generate_def
        Let_def split: sum.splits prod.splits if_splits)
qed

lemma index_file_det_success:
  assumes det: "\<forall>n m prompt. ollama_run e n prompt = ollama_run e m prompt"
    and "index_file e conn w p = (Inr ca, wa)"
  shows "\<exists>cb wb. index_file e conn' w' p = (Inr cb, wb)"
proof -
  have d: "ollama_run e n x = ollama_run e 0 x" for n x using det by blast
  show ?thesis
    using assms(2) d [of "length (calls w)"] d [of "Suc (length (calls w))"]
      d [of "length (calls w')"] d [of "Suc (length (calls w'))"]
    by (auto simp: index_file_def summarize_private_def summarize_public_def ollama_generate_def
        Let_def split: sum.splits prod.splits if_splits)
qed

lemma file_rows_det:
  assumes det: "\<forall>n m prompt. ollama_run e n prompt = ollama_run e m prompt"
    and "fst (upsert_doc conn' p (utcnow e (ticks w'))) = fst (upsert_doc conn p (utcnow e (ticks w)))"
  shows "file_rows e conn' w' p = file_rows e conn w p"
proof -
  have d: "ollama_run e n x = ollama_run e 0 x" for n x using det by blast
  show ?thesis
    using assms(2) d [of "length (calls w)"] d [of "Suc (length (calls w))"]
      d [of "length (calls w')"] d [of "Suc (length (calls w'))"]
    by (simp add: file_rows_def Let_def split: sum.splits)
qed

lemma rerun_same_rows:
  assumes det: "\<forall>n m prompt. ollama_run e n prompt = ollama_run e m prompt"
  shows "index_paths e conn w ps = (r, c1, w1) \<Longrightarrow>
     (\<And>q i. select_id c1 q = Some i \<Longrightarrow> select_id conn' q = Some i) \<Longrightarrow>
     written e conn' w' ps = written e conn w ps \<and> fst (index_paths e conn' w' ps) = r"
proof (induction ps arbitrary: conn w conn' w')
  case Nil
  then show ?case by simp
next
  case (Cons p ps)
  show ?case
  proof (cases "should_index e p")
    case False
    then show ?thesis using Cons.IH [of conn w conn' w'] Cons.prems by simp
  next
    case True
    obtain x wa where f: "index_file e conn w p = (x, wa)" by (cases "index_file e conn w p")
    show ?thesis
    proof (cases x)
      case (Inl err)
      then obtain wb where "index_file e conn' w' p = (Inl err, wb)"
        using index_file_det_failure [OF det, of conn w p err wa conn' w'] f by blast
      then show ?thesis using Cons.prems(1) True f Inl by simp
    next
      case (Inr ca)
      then have fa: "index_file e conn w p = (Inr ca, wa)" using f by simp
      obtain cb wb where fb: "index_file e conn' w' p = (Inr cb, wb)"
        using index_file_det_success [OF det fa, of conn' w'] by blast
      have rest: "index_paths e ca wa ps = (r, c1, w1)"
        using Cons.prems(1) True fa by simp
      let ?i = "fst (upsert_doc conn p (utcnow e (ticks w)))"
      have "select_id ca p = Some ?i"
        using index_file_registers [OF fa, of p] by simp
      then have known1: "select_id c1 p = Some ?i"
        using index_paths_keeps_registered [OF rest] by simp
      then have known': "select_id conn' p = Some ?i"
        by (rule Cons.prems(2))
      then have same_id: "fst (upsert_doc conn' p (utcnow e (ticks w'))) = ?i"
        by (rule upsert_doc_known)
      have rows: "file_rows e conn' w' p = file_rows e conn w p"
        using file_rows_det [OF det same_id] .
      have ext: "select_id cb q = Some i" if "select_id c1 q = Some i" for q i
      proof (cases "q = p")
        case True
        then show ?thesis
          using index_file_registers [OF fb, of q] same_id known1 that by simp
      next
        case False
        then show ?thesis
          using index_file_registers [OF fb, of q] Cons.prems(2) [OF that] by simp
      qed
      have "written e cb wb ps = written e ca wa ps \<and> fst (index_paths e cb wb ps) = r"
        using Cons.IH [OF rest ext] by simp
      then show ?thesis using True fa fb rows by simp
    qed
  qed
qed

text \<open>
  C2. With a backend that answers every prompt the same way whenever it is asked, two
  runs of the batch-index operation in a row over the same file system leave the
  \<open>chunks\<close> table after the second run equal, row for row and in order, to the table
  after the first; the second run also ends the way the first did. This holds from any
  store, also when a run is ended by an error.
\<close>

theorem reindex_idempotent:
  assumes "\<forall>n m prompt. ollama_run e n prompt = ollama_run e m prompt"
    and "main e conn w = (r1, conn1, w1)"
    and "main e conn1 w1 = (r2, conn2, w2)"
  shows "chunks conn2 = chunks conn1 \<and> r2 = r1"
proof -
  have run1: "index_paths e conn w (candidates e) = (r1, conn1, w1)"
    using assms(2) by (simp add: main_flat)
  have run2: "index_paths e conn1 w1 (candidates e) = (r2, conn2, w2)"
    using assms(3) by (simp add: main_flat)
  have same: "written e conn1 w1 (candidates e) = written e conn w (candidates e)
      \<and> fst (index_paths e conn1 w1 (candidates e)) = r1"
    using rerun_same_rows [OF assms(1) run1, of conn1 w1] by simp
  have "chunks conn2 = puts (chunks conn1) (written e conn w (candidates e))"
    using index_paths_written [OF run2] same by simp
  also have "\<dots> = puts (puts (chunks conn) (written e conn w (candidates e)))
      (written e conn w (candidates e))"
    using index_paths_written [OF run1] by simp
  also have "\<dots> = chunks conn1"
    using index_paths_written [OF run1] by (simp add: puts_twice)
  finally show ?thesis using same run2 by simp
qed

lemma leaky_deterministic: "\<forall>n m prompt. ollama_run leaky_env n prompt = ollama_run leaky_env m prompt"
  by (simp add: leaky_env_def demo_env_def)

lemma leaky_reindex_notes:
  "index_file leaky_env indexed_store indexed_world notes_md
     = (Inr indexed_store, \<lparr>calls = calls indexed_world @ calls indexed_world, ticks = 2\<rparr>)"
  by (simp add: index_file_def leaky_env_def demo_env_def indexed_store_def indexed_world_def
      upsert_doc_def select_id_def upsert_chunk_def summarize_private_def
      summarize_public_def ollama_generate_def strip_def isspace_def)

lemma leaky_rerun:
  "main leaky_env indexed_store indexed_world
     = (None, indexed_store, \<lparr>calls = calls indexed_world @ calls indexed_world, ticks = 2\<rparr>)"
proof -
  have "\<not> should_index leaky_env diary_md"
    using diary_excluded by (auto simp: should_index_def under_exclusion_iff)
  then show ?thesis
    by (simp add: main_flat leaky_candidates leaky_should_index leaky_reindex_notes)
qed

theorem reindex_idempotent_witness:
  "main leaky_env empty_store start_world = (None, indexed_store, indexed_world)
   \<and> main leaky_env indexed_store indexed_world
       = (None, indexed_store, \<lparr>calls = calls indexed_world @ calls indexed_world, ticks = 2\<rparr>)
   \<and> ollama_run leaky_env 0 = ollama_run leaky_env 1"
  using reindex_idempotent [OF leaky_deterministic leaky_main leaky_rerun]
    leaky_main leaky_rerun leaky_deterministic
  by (simp add: fun_eq_iff)

section \<open>Keywords and patterns\<close>

lemma like_any: "like ''%'' s"
  by (induction s) auto

lemma like_percent: "like (CHR ''%'' # ps) s \<longleftrightarrow> (\<exists>k\<le>length s. like ps (drop k s))"
proof (induction s)
  case Nil
  show ?case by simp
next
  case (Cons c t)
  have "like (CHR ''%'' # ps) (c # t) \<longleftrightarrow> like ps (c # t) \<or> like (CHR ''%'' # ps) t"
    by simp
  also have "\<dots> \<longleftrightarrow> like ps (c # t) \<or> (\<exists>k\<le>length t. like ps (drop k t))"
    using Cons.IH by simp
  also have "\<dots> \<longleftrightarrow> (\<exists>k\<le>length (c # t). like ps (drop k (c # t)))"
  proof
    assume "like ps (c # t) \<or> (\<exists>k\<le>length t. like ps (drop k t))"
    then show "\<exists>k\<le>length (c # t). like ps (drop k (c # t))"
    proof
      assume "like ps (c # t)"
      then have "like ps (drop 0 (c # t))" by simp
      then show ?thesis by blast
    next
      assume "\<exists>k\<le>length t. like ps (drop k t)"
      then obtain k where "k \<le> length t" "like ps (drop k t)" by blast
      then have "Suc k \<le> length (c # t)" "like ps (drop (Suc k) (c # t))" by simp_all
      then show ?thesis by blast
    qed
  next
    assume "\<exists>k\<le>length (c # t). like ps (drop k (c # t))"
    then obtain k where k: "k \<le> length (c # t)" "like ps (drop k (c # t))" by blast
    show "like ps (c # t) \<or> (\<exists>k\<le>length t. like ps (drop k t))"
    proof (cases k)
      case 0
      then show ?thesis using k by simp
    next
      case (Suc j)
      then have "j \<le> length t" "like ps (drop j t)" using k by simp_all
      then show ?thesis by blast
    qed
  qed
  finally show ?case .
qed

lemma like_literal:
  "CHR ''%'' \<notin> set q \<Longrightarrow> CHR ''_'' \<notin> set q \<Longrightarrow>
     like (q @ ps) s \<longleftrightarrow>
       (length q \<le> length s \<and> map lower (take (length q) s) = map lower q
        \<and> like ps (drop (length q) s))"
proof (induction q arbitrary: s)
  case Nil
  show ?case by simp
next
  case (Cons a q)
  show ?case
  proof (cases s)
    case Nil
    then show ?thesis using Cons.prems by auto
  next
    case (Cons c t)
    then show ?thesis using Cons.prems Cons.IH [of t] by auto
  qed
qed

text \<open>For a keyword without \<open>%\<close> and \<open>_\<close> the pattern \<open>%q%\<close> matches the
  summaries that contain the keyword up to the case of ASCII letters.\<close>

lemma like_substring:
  assumes "CHR ''%'' \<notin> set q" and "CHR ''_'' \<notin> set q"
  shows "like (''%'' @ q @ ''%'') s \<longleftrightarrow> sublist (map lower q) (map lower s)"
proof
  assume "like (''%'' @ q @ ''%'') s"
  then have "like (CHR ''%'' # q @ ''%'') s" by simp
  then obtain k where k: "k \<le> length s" "like (q @ ''%'') (drop k s)"
    using like_percent [of "q @ ''%''" s] by blast
  then have m: "length q \<le> length (drop k s)"
    "map lower (take (length q) (drop k s)) = map lower q"
    using like_literal [OF assms, of "''%''" "drop k s"] by blast+
  have "s = take k s @ take (length q) (drop k s) @ drop (length q) (drop k s)"
    by (simp only: append_take_drop_id)
  then have "map lower s = map lower (take k s) @ map lower q @ map lower (drop (length q) (drop k s))"
    using m(2) by (metis map_append)
  then show "sublist (map lower q) (map lower s)"
    unfolding sublist_def by blast
next
  assume "sublist (map lower q) (map lower s)"
  then obtain pre post where e: "map lower s = pre @ map lower q @ post"
    unfolding sublist_def by blast
  let ?k = "length pre"
  have len: "length s = length pre + length q + length post"
    using arg_cong [OF e, of length] by simp
  have "map lower (drop ?k s) = map lower q @ post"
    using arg_cong [OF e, of "drop ?k"] by (simp add: drop_map)
  then have "take (length q) (map lower (drop ?k s)) = take (length q) (map lower q @ post)"
    by (rule arg_cong)
  then have "map lower (take (length q) (drop ?k s)) = map lower q"
    by (simp add: take_map)
  moreover have "length q \<le> length (drop ?k s)" using len by simp
  moreover have "like ''%'' (drop (length q) (drop ?k s))" by (rule like_any)
  ultimately have "like (q @ ''%'') (drop ?k s)"
    using like_literal [OF assms, of "''%''" "drop ?k s"] by blast
  moreover have "?k \<le> length s" using len by simp
  ultimately have "like (CHR ''%'' # q @ ''%'') s"
    using like_percent [of "q @ ''%''" s] by blast
  then show "like (''%'' @ q @ ''%'') s" by simp
qed

lemma select_rows_plain_keyword:
  assumes "CHR ''%'' \<notin> set q" and "CHR ''_'' \<notin> set q"
  shows "select_rows conn q =
     take 10
       (concat (map (\<lambda>c. concat (map (\<lambda>d.
          if c_doc_id c = d_id d \<and> c_layer c = ''public''
             \<and> sublist (map lower q) (map lower (c_summary c))
          then [(c, d)] else []) (docs conn))) (chunks conn)))"
  unfolding select_rows_def like_substring [OF assms] by (rule refl)

lemma select_public_at_most_10: "length (select_public conn q) \<le> 10"
  by (simp add: select_public_def select_rows_def)

text \<open>
  C9 on the code. The arguments \<open>a_c\<close> make the query return the note whose public
  summary is \<open>abc\<close>, although \<open>a_c\<close> is not a substring of \<open>abc\<close> in any case of the
  letters: SQLite reads the unescaped \<open>_\<close> of the keyword as its one-character wildcard.
\<close>

theorem keyword_wildcard_matches:
  "query_main abc_store [''rlm_query.py'', ''a_c''] = Inr [(notes_md, ''abc'')]
   \<and> \<not> sublist (str_lower ''a_c'') (str_lower ''abc'')"
proof -
  have "\<not> sublist (str_lower ''a_c'') (str_lower ''abc'')"
  proof
    assume "sublist (str_lower ''a_c'') (str_lower ''abc'')"
    then obtain pre post where "str_lower ''abc'' = pre @ str_lower ''a_c'' @ post"
      unfolding sublist_def by blast
    then have "set (str_lower ''a_c'') \<subseteq> set (str_lower ''abc'')"
      by (metis set_append sup_ge1 sup_ge2 subset_trans)
    then show False by (simp add: str_lower_def lower_def)
  qed
  moreover have "query_main abc_store [''rlm_query.py'', ''a_c''] = Inr [(notes_md, ''abc'')]"
    by (simp add: query_main_def select_public_def select_rows_def abc_store_def str_lower_def
        lower_def)
  ultimately show ?thesis by simp
qed

end
